theory Spec2Isabelle
  imports Complex_Main "HOL-Library.Word" "HOL-Library.Monad_Syntax"
begin

section \<open>Data model\<close>

text \<open>
  The engine works on \<open>size_t\<close> offsets and lengths, which are 64-bit unsigned
  machine integers whose arithmetic wraps around; they are modelled as \<open>64 word\<close>.
  Device indices (\<open>gpu_id_t\<close>) and the phase count only index tables and are natural
  numbers. A \<open>std::vector\<close> is a list; reading or writing it out of range is undefined
  behaviour in C++, which the model reports as \<open>None\<close>.
\<close>

type_synonym size_t = "64 word"
type_synonym gpu_id_t = nat
type_synonym table = "size_t list list"

text \<open>\<open>struct transfer\<close>: one copy descriptor.\<close>

record transfer =
  src_gpu :: gpu_id_t
  src_pos :: size_t
  trg_gpu :: gpu_id_t
  trg_pos :: size_t
  len :: size_t

text \<open>
  \<open>struct transfer_handler\<close> and \<open>struct transfer_handler_graph\<close>: both carry the same
  bookkeeping fields, and \<open>push_back\<close> and \<open>add_transfer\<close> have the same body.
\<close>

record handler =
  src_offsets :: table
  phases_offsets :: table
  trg_offsets :: table
  src_displacements :: table
  sizes :: table
  num_phases :: nat
  phases :: "transfer list list"
  num_chunks :: size_t

text \<open>\<open>t[i][j]\<close> on a vector of vectors; \<open>None\<close> when an index is out of range.\<close>

definition at2 :: "'a list list \<Rightarrow> nat \<Rightarrow> nat \<Rightarrow> 'a option" where
  "at2 t i j = (if i < length t \<and> j < length (t ! i) then Some (t ! i ! j) else None)"

text \<open>\<open>t[i][j] = v\<close>, used only after \<open>t[i][j]\<close> has been read.\<close>

definition set2 :: "'a list list \<Rightarrow> nat \<Rightarrow> nat \<Rightarrow> 'a \<Rightarrow> 'a list list" where
  "set2 t i j v = t[i := (t ! i)[j := v]]"

text \<open>
  Modelled from the spec: the macro \<open>SDIV\<close> is not among the sources; the spec gives the
  per-chunk size as \<open>ceil(total / C)\<close>. Division by zero is left to the caller.
\<close>

definition SDIV :: "size_t \<Rightarrow> size_t \<Rightarrow> size_t" where
  "SDIV x y = word_of_nat ((unat x + (unat y - 1)) div unat y)"

text \<open>
  Modelled from the spec: \<open>check\<close> (error_checking.hpp) is not among the sources; it
  reports the message when the condition is false and returns the condition.
\<close>

definition check :: "bool \<Rightarrow> string \<Rightarrow> bool" where
  "check ok msg = ok"

text \<open>
  The constructor of both handlers: cursors start at the displacements, there is one
  zeroed row of intermediate cursors per phase boundary, and one empty list per phase.
\<close>

definition transfer_handler ::
  "nat \<Rightarrow> table \<Rightarrow> table \<Rightarrow> table \<Rightarrow> nat \<Rightarrow> size_t \<Rightarrow> handler" where
  "transfer_handler num_devices src_displ trg_displ szs nphases nchunks =
     \<lparr> src_offsets = src_displ,
       phases_offsets =
         (if nphases > 1 then replicate (nphases - 1) (replicate num_devices 0) else []),
       trg_offsets = trg_displ,
       src_displacements = src_displ,
       sizes = szs,
       num_phases = nphases,
       phases = replicate nphases [],
       num_chunks = nchunks \<rparr>"

section \<open>The transfer bookkeeper\<close>

text \<open>
  Size resolution and bounds check of \<open>push_back\<close>/\<open>add_transfer\<close>: returns the source
  cursor, the destination cursor and the clamped transfer size.
\<close>

definition resolve :: "handler \<Rightarrow> gpu_id_t list \<Rightarrow> size_t \<Rightarrow> (size_t \<times> size_t \<times> size_t) option" where
  "resolve h sequence chunks = do {
     sz \<leftarrow> at2 (sizes h) (hd sequence) (last sequence);
     _ \<leftarrow> (if num_chunks h = 0 then None else Some ());
     let size_per_chunk = SDIV sz (num_chunks h);
     let transfer_size = size_per_chunk * chunks;
     src_offset \<leftarrow> at2 (src_offsets h) (hd sequence) (last sequence);
     trg_offset \<leftarrow> at2 (trg_offsets h) (hd sequence) (last sequence);
     displ \<leftarrow> at2 (src_displacements h) (hd sequence) (last sequence);
     let limit = displ + sz;
     Some (src_offset, trg_offset,
           if src_offset + transfer_size > limit then limit - src_offset else transfer_size)
   }"

text \<open>\<open>phases[phase].emplace_back(t)\<close>.\<close>

definition emplace_back :: "transfer list list \<Rightarrow> nat \<Rightarrow> transfer \<Rightarrow> transfer list list option" where
  "emplace_back phs phase t =
     (if phase < length phs then Some (phs[phase := phs ! phase @ [t]]) else None)"

text \<open>The descriptor of phase 0 when there are several phases.\<close>

definition first_transfer :: "table \<Rightarrow> gpu_id_t list \<Rightarrow> size_t \<Rightarrow> size_t \<Rightarrow> transfer option" where
  "first_transfer po sequence src_offset transfer_size = do {
     t \<leftarrow> at2 po 0 (sequence ! 1);
     Some \<lparr> src_gpu = sequence ! 0, src_pos = src_offset,
            trg_gpu = sequence ! 1, trg_pos = t, len = transfer_size \<rparr>
   }"

text \<open>The descriptor of a phase strictly between the first and the last.\<close>

definition middle_transfer :: "table \<Rightarrow> gpu_id_t list \<Rightarrow> size_t \<Rightarrow> nat \<Rightarrow> transfer option" where
  "middle_transfer po sequence transfer_size phase = do {
     s \<leftarrow> at2 po (phase - 1) (sequence ! phase);
     t \<leftarrow> at2 po phase (sequence ! (phase + 1));
     Some \<lparr> src_gpu = sequence ! phase, src_pos = s,
            trg_gpu = sequence ! (phase + 1), trg_pos = t, len = transfer_size \<rparr>
   }"

text \<open>The descriptor of the last phase when there are several phases.\<close>

definition last_transfer :: "table \<Rightarrow> gpu_id_t list \<Rightarrow> size_t \<Rightarrow> size_t \<Rightarrow> nat \<Rightarrow> transfer option" where
  "last_transfer po sequence trg_offset transfer_size phase = do {
     s \<leftarrow> at2 po (phase - 1) (sequence ! phase);
     Some \<lparr> src_gpu = sequence ! phase, src_pos = s,
            trg_gpu = sequence ! (phase + 1), trg_pos = trg_offset, len = transfer_size \<rparr>
   }"

text \<open>The loop \<open>for (phase = 1; phase < num_phases-1; ++phase)\<close> over its phases.\<close>

fun emit_middle ::
  "table \<Rightarrow> gpu_id_t list \<Rightarrow> size_t \<Rightarrow> nat list \<Rightarrow> transfer list list \<Rightarrow> transfer list list option" where
  "emit_middle po sequence transfer_size [] phs = Some phs"
| "emit_middle po sequence transfer_size (phase # rest) phs = do {
     t \<leftarrow> middle_transfer po sequence transfer_size phase;
     phs' \<leftarrow> emplace_back phs phase t;
     emit_middle po sequence transfer_size rest phs'
   }"

text \<open>
  The loop \<open>for (phase = 0; phase < num_phases-1; ++phase)
  phases_offsets[phase][sequence[phase+1]] += transfer_size\<close> over its phases.
\<close>

fun advance_phases :: "table \<Rightarrow> gpu_id_t list \<Rightarrow> size_t \<Rightarrow> nat list \<Rightarrow> table option" where
  "advance_phases po sequence transfer_size [] = Some po"
| "advance_phases po sequence transfer_size (phase # rest) = do {
     c \<leftarrow> at2 po phase (sequence ! (phase + 1));
     advance_phases (set2 po phase (sequence ! (phase + 1)) (c + transfer_size))
       sequence transfer_size rest
   }"

text \<open>
  The descriptors one call appends. With no phase at all the source indexes
  \<open>phases[0]\<close> and \<open>sequence[1]\<close> out of range.
\<close>

definition emit ::
  "handler \<Rightarrow> gpu_id_t list \<Rightarrow> size_t \<Rightarrow> size_t \<Rightarrow> size_t \<Rightarrow> transfer list list option" where
  "emit h sequence src_offset trg_offset transfer_size =
     (if num_phases h = 1 then
        emplace_back (phases h) 0
          \<lparr> src_gpu = sequence ! 0, src_pos = src_offset,
            trg_gpu = sequence ! 1, trg_pos = trg_offset, len = transfer_size \<rparr>
      else if num_phases h = 0 then None
      else do {
        t0 \<leftarrow> first_transfer (phases_offsets h) sequence src_offset transfer_size;
        p0 \<leftarrow> emplace_back (phases h) 0 t0;
        p1 \<leftarrow> emit_middle (phases_offsets h) sequence transfer_size [1 ..< num_phases h - 1] p0;
        tl \<leftarrow> last_transfer (phases_offsets h) sequence trg_offset transfer_size (num_phases h - 1);
        emplace_back p1 (num_phases h - 1) tl
      })"

text \<open>
  \<open>transfer_handler_graph::add_transfer\<close>. The result is \<open>None\<close> where the source has
  undefined behaviour; otherwise the returned flag and the handler after the call.
\<close>

definition add_transfer :: "handler \<Rightarrow> gpu_id_t list \<Rightarrow> size_t \<Rightarrow> (bool \<times> handler) option" where
  "add_transfer h sequence chunks =
     (if \<not> check (length sequence = num_phases h + 1)
              ''sequence size does not match number of phases.''
      then Some (False, h)
      else do {
        (src_offset, trg_offset, transfer_size) \<leftarrow> resolve h sequence chunks;
        phs \<leftarrow> emit h sequence src_offset trg_offset transfer_size;
        po \<leftarrow> advance_phases (phases_offsets h) sequence transfer_size [0 ..< num_phases h - 1];
        Some (True,
              h \<lparr> src_offsets :=
                    set2 (src_offsets h) (hd sequence) (last sequence) (src_offset + transfer_size),
                  phases_offsets := po,
                  trg_offsets :=
                    set2 (trg_offsets h) (hd sequence) (last sequence) (trg_offset + transfer_size),
                  phases := phs \<rparr>)
      })"

text \<open>\<open>transfer_handler::push_back\<close> has the same body as \<open>add_transfer\<close>.\<close>

definition push_back :: "handler \<Rightarrow> gpu_id_t list \<Rightarrow> size_t \<Rightarrow> (bool \<times> handler) option" where
  "push_back h sequence chunks = add_transfer h sequence chunks"

section \<open>The routing plan and the engines\<close>

text \<open>
  What the engine reads of the routing plan (all_to_all_plan.hpp, an external
  collaborator): \<open>valid()\<close>, \<open>num_gpus()\<close>, \<open>num_steps()\<close>, \<open>num_chunks()\<close> and the
  ordered \<open>transfer_sequences()\<close>, each with its hop sequence \<open>seq\<close> and its relative
  size \<open>size\<close>.
\<close>

record transfer_sequence =
  seq :: "gpu_id_t list"
  seq_size :: size_t

record transfer_plan_t =
  valid :: bool
  num_gpus :: nat
  num_steps :: nat
  plan_num_chunks :: size_t
  transfer_sequences :: "transfer_sequence list"

text \<open>
  \<open>class all2all_t\<close>: the device count of its context, its plan and \<open>plan_valid\<close>.
  \<open>class all2all_graph_t\<close> adds the cached executable \<open>execgraphTotal\<close>; an executable
  is modelled by the graph it currently runs, a null handle by \<open>None\<close>.
\<close>

type_synonym buffer = nat

datatype node = MemcpyAsync (to_buffer: buffer) (to_pos: size_t)
  (from_buffer: buffer) (from_pos: size_t) (elems: size_t)

type_synonym graph = "node list"

record all2all_t =
  context_num_devices :: nat
  transfer_plan :: transfer_plan_t
  plan_valid :: bool

record all2all_graph_t = all2all_t +
  execgraphTotal :: "graph option"

text \<open>
  The constructor taking a plan. \<open>verify_plan\<close> is external and may validate the plan
  in place; it is a parameter.
\<close>

definition all2all_with_plan ::
  "(transfer_plan_t \<Rightarrow> transfer_plan_t) \<Rightarrow> nat \<Rightarrow> transfer_plan_t \<Rightarrow> all2all_t" where
  "all2all_with_plan verify_plan n plan =
     (let p = (if \<not> valid plan then verify_plan plan else plan) in
      \<lparr> context_num_devices = n, transfer_plan = p,
        plan_valid = (n = num_gpus p \<and> valid p) \<rparr>)"

text \<open>The constructor that takes the default plan of the context's device count.\<close>

definition all2all_default :: "(nat \<Rightarrow> transfer_plan_t) \<Rightarrow> nat \<Rightarrow> all2all_t" where
  "all2all_default default_plan n =
     \<lparr> context_num_devices = n, transfer_plan = default_plan n,
       plan_valid = valid (default_plan n) \<rparr>"

section \<open>The displacement computer\<close>

text \<open>\<open>std::partial_sum\<close>: the running sums of a range, in the element type.\<close>

fun partial_sum_from :: "size_t \<Rightarrow> size_t list \<Rightarrow> size_t list" where
  "partial_sum_from acc [] = []"
| "partial_sum_from acc (x # xs) = (acc + x) # partial_sum_from (acc + x) xs"

definition partial_sum :: "size_t list \<Rightarrow> size_t list" where
  "partial_sum xs = (case xs of [] \<Rightarrow> [] | x # rest \<Rightarrow> x # partial_sum_from x rest)"

text \<open>Writing a range into a vector from position \<open>k\<close> on.\<close>

definition write_at :: "'a list \<Rightarrow> nat \<Rightarrow> 'a list \<Rightarrow> 'a list" where
  "write_at row k ys = take k row @ ys @ drop (k + length ys) row"

text \<open>
  The horizontal scan: \<open>n\<close> zeroed rows of \<open>n + 1\<close> entries, row \<open>gpu\<close> overwritten from
  position 1 with the running sums of \<open>send_counts[gpu]\<close>. The orchestrator has checked
  before that the table is \<open>n \<times> n\<close>.
\<close>

definition compute_src_displacements :: "nat \<Rightarrow> table \<Rightarrow> table" where
  "compute_src_displacements n send_counts =
     map (\<lambda>gpu. write_at (replicate (n + 1) 0) 1 (partial_sum (send_counts ! gpu))) [0 ..< n]"

text \<open>
  The vertical scan: \<open>n + 1\<close> zeroed rows of \<open>n\<close> entries, then for every \<open>gpu\<close> and every
  \<open>part\<close> the assignment
  \<open>trg_displacements[part+1][gpu] = send_counts[part][gpu] + trg_displacements[part][gpu]\<close>.
\<close>

definition trg_step :: "table \<Rightarrow> nat \<Rightarrow> nat \<Rightarrow> table \<Rightarrow> table" where
  "trg_step send_counts gpu part t =
     set2 t (part + 1) gpu (send_counts ! part ! gpu + t ! part ! gpu)"

definition compute_trg_displacements :: "nat \<Rightarrow> table \<Rightarrow> table" where
  "compute_trg_displacements n send_counts =
     fold (\<lambda>gpu t. fold (trg_step send_counts gpu) [0 ..< n] t) [0 ..< n]
       (replicate (n + 1) (replicate n 0))"

section \<open>The graph executor\<close>

text \<open>
  The native runtime calls are recorded as events. A stream capture records the copies
  of the phases as the nodes of a graph and runs none of them; a launch of an executable
  issues the copies of its graph. Whether \<open>cudaGraphExecUpdate\<close> succeeds is decided by
  the runtime: \<open>exec_update old new\<close> is a parameter.
\<close>

datatype event =
    StreamCapture graph
  | GraphExecUpdate bool
  | GraphExecDestroy
  | GraphInstantiate
  | GraphDestroy
  | GraphLaunch graph
  | SyncAllStreams

text \<open>The copy one descriptor records: \<open>to = current_dsts[t.trg_gpu] + t.trg_pos\<close>,
  \<open>from = current_srcs[t.src_gpu] + t.src_pos\<close>, \<open>t.len\<close> elements.\<close>

definition record_copy :: "buffer list \<Rightarrow> buffer list \<Rightarrow> transfer \<Rightarrow> node option" where
  "record_copy current_srcs current_dsts t =
     (if src_gpu t < length current_srcs \<and> trg_gpu t < length current_dsts
      then Some (MemcpyAsync (current_dsts ! trg_gpu t) (trg_pos t)
                   (current_srcs ! src_gpu t) (src_pos t) (len t))
      else None)"

text \<open>The copies of one phase, between the two buffer sets as given.\<close>

definition capture_phase :: "handler \<Rightarrow> buffer list \<Rightarrow> buffer list \<Rightarrow> nat \<Rightarrow> graph option" where
  "capture_phase h current_srcs current_dsts p =
     (if p < length (phases h)
      then those (map (record_copy current_srcs current_dsts) (phases h ! p))
      else None)"

text \<open>The capture of \<open>update_graph\<close>: all phases, the buffer roles alternating.\<close>

definition capture :: "handler \<Rightarrow> buffer list \<Rightarrow> buffer list \<Rightarrow> graph option" where
  "capture h srcs dsts =
     map_option concat
       (those (map (\<lambda>p. capture_phase h (if p mod 2 = 0 then srcs else dsts)
                                       (if p mod 2 = 0 then dsts else srcs) p)
                   [0 ..< num_phases h]))"

text \<open>
  After the capture: update the executable if there is one, instantiate a new one on
  the first pass or when the update fails, and destroy the captured graph.
\<close>

definition update_or_instantiate ::
  "(graph \<Rightarrow> graph \<Rightarrow> bool) \<Rightarrow> graph option \<Rightarrow> graph \<Rightarrow> graph option \<times> event list" where
  "update_or_instantiate exec_update exec g =
     (case exec of
        None \<Rightarrow> (Some g, [GraphInstantiate, GraphDestroy])
      | Some old \<Rightarrow>
          if exec_update old g then (Some g, [GraphExecUpdate True, GraphDestroy])
          else (Some g, [GraphExecUpdate False, GraphExecDestroy, GraphInstantiate, GraphDestroy]))"

text \<open>\<open>transfer_handler_graph::update_graph\<close>: one capture-and-update step.\<close>

definition update_graph ::
  "(graph \<Rightarrow> graph \<Rightarrow> bool) \<Rightarrow> handler \<Rightarrow> graph option \<Rightarrow> buffer list \<Rightarrow> buffer list
     \<Rightarrow> (graph option \<times> event list) option" where
  "update_graph exec_update h exec srcs dsts = do {
     g \<leftarrow> capture h srcs dsts;
     let (exec', evs) = update_or_instantiate exec_update exec g;
     Some (exec', StreamCapture g # evs)
   }"

text \<open>\<open>transfer_handler_graph::update_phase_graph\<close>: the same step for one phase.\<close>

definition update_phase_graph ::
  "(graph \<Rightarrow> graph \<Rightarrow> bool) \<Rightarrow> handler \<Rightarrow> graph option \<Rightarrow> nat \<Rightarrow> buffer list \<Rightarrow> buffer list
     \<Rightarrow> (graph option \<times> event list) option" where
  "update_phase_graph exec_update h exec phase srcs dsts = do {
     g \<leftarrow> capture_phase h srcs dsts phase;
     let (exec', evs) = update_or_instantiate exec_update exec g;
     Some (exec', StreamCapture g # evs)
   }"

text \<open>
  \<open>transfer_handler_graph::execute\<close> (the handler's own \<open>execgraphTotal\<close> is the
  argument \<open>exec\<close>); the assertion that the executable is not null fails on \<open>None\<close>.
\<close>

definition execute ::
  "(graph \<Rightarrow> graph \<Rightarrow> bool) \<Rightarrow> handler \<Rightarrow> graph option \<Rightarrow> buffer list \<Rightarrow> buffer list
     \<Rightarrow> (graph option \<times> event list) option" where
  "execute exec_update h exec srcs dsts = do {
     (e1, evs1) \<leftarrow> update_graph exec_update h exec srcs dsts;
     (e2, evs2) \<leftarrow> update_graph exec_update h e1 srcs dsts;
     g \<leftarrow> e2;
     Some (e2, evs1 @ evs2 @ [GraphLaunch g])
   }"

text \<open>\<open>transfer_handler_graph::execute_phase\<close>, on \<open>execgraphPerPhase[phase]\<close>.\<close>

definition execute_phase ::
  "(graph \<Rightarrow> graph \<Rightarrow> bool) \<Rightarrow> handler \<Rightarrow> graph option \<Rightarrow> nat \<Rightarrow> buffer list \<Rightarrow> buffer list
     \<Rightarrow> (graph option \<times> event list) option" where
  "execute_phase exec_update h exec phase srcs dsts = do {
     (e1, evs1) \<leftarrow> update_phase_graph exec_update h exec phase srcs dsts;
     (e2, evs2) \<leftarrow> update_phase_graph exec_update h e1 phase srcs dsts;
     g \<leftarrow> e2;
     Some (e2, evs1 @ evs2 @ [GraphLaunch g])
   }"

section \<open>The orchestrator\<close>

text \<open>
  The loop that feeds the plan's hop sequences to the bookkeeper, in plan order; the
  flag each call returns is not looked at.
\<close>

fun run :: "handler \<Rightarrow> transfer_sequence list \<Rightarrow> handler option" where
  "run h [] = Some h"
| "run h (c # cs) = do {
     (ok, h') \<leftarrow> add_transfer h (seq c) (seq_size c);
     run h' cs
   }"

text \<open>Displacement computation, construction of the handler, and the loop.\<close>

definition prepare_transfers :: "all2all_t \<Rightarrow> table \<Rightarrow> handler option" where
  "prepare_transfers a send_counts =
     (let n = context_num_devices a in
      run (transfer_handler n
             (compute_src_displacements n send_counts)
             (compute_trg_displacements n send_counts)
             send_counts
             (num_steps (transfer_plan a))
             (plan_num_chunks (transfer_plan a)))
          (transfer_sequences (transfer_plan a)))"

text \<open>
  Modelled from the spec: \<open>check_size\<close> is not among the sources; the spec has every
  per-device write cursor not exceed the declared destination-buffer length of its
  device.
\<close>

definition check_size :: "size_t list \<Rightarrow> size_t list \<Rightarrow> bool" where
  "check_size transfer_sizes buffer_lengths =
     list_all (\<lambda>(c, l). c \<le> l) (zip transfer_sizes buffer_lengths)"

text \<open>The loop \<open>for (p = 0; p < num_phases-1; ++p) if (!check_size(phases_offsets[p], dsts_lens))
  return false\<close>; \<open>Some False\<close> is the early return.\<close>

fun check_phases :: "table \<Rightarrow> nat list \<Rightarrow> size_t list \<Rightarrow> bool option" where
  "check_phases po [] dsts_lens = Some True"
| "check_phases po (p # ps) dsts_lens =
     (if p < length po
      then (if \<not> check_size (po ! p) dsts_lens then Some False
            else check_phases po ps dsts_lens)
      else None)"

text \<open>
  The checks of the caller's vectors against the device count, common to \<open>execAsync\<close>
  and \<open>prepareExec\<close>, in the order of the source.
\<close>

definition inputs_ok ::
  "all2all_t \<Rightarrow> buffer list \<Rightarrow> size_t list \<Rightarrow> buffer list \<Rightarrow> size_t list \<Rightarrow> table \<Rightarrow> bool" where
  "inputs_ok a srcs srcs_lens dsts dsts_lens send_counts =
     (let n = context_num_devices a in
      if \<not> check (plan_valid a) ''Invalid plan. Abort.'' then False
      else if \<not> check (length srcs = n) ''srcs size does not match number of gpus.'' then False
      else if \<not> check (length srcs_lens = n) ''srcs_lens size does not match number of gpus.'' then False
      else if \<not> check (length dsts = n) ''dsts size does not match number of gpus.'' then False
      else if \<not> check (length dsts_lens = n) ''dsts_lens size does not match number of gpus.'' then False
      else if \<not> check (length send_counts = n) ''table size does not match number of gpus.'' then False
      else list_all (\<lambda>counts. check (length counts = n) ''table size does not match number of gpus.'')
             send_counts)"

text \<open>
  The cursor checks after the bookkeeping. With no phase, \<open>num_phases-1\<close> wraps around
  and the loop reads \<open>phases_offsets[0]\<close> of an empty vector.
\<close>

definition cursors_ok :: "all2all_t \<Rightarrow> handler \<Rightarrow> size_t list \<Rightarrow> bool option" where
  "cursors_ok a transfers dsts_lens =
     (if num_phases transfers = 0 then None
      else do {
        ok \<leftarrow> check_phases (phases_offsets transfers) [0 ..< num_phases transfers - 1] dsts_lens;
        if \<not> ok then Some False
        else if context_num_devices a < length (trg_offsets transfers)
        then Some (check_size (trg_offsets transfers ! context_num_devices a) dsts_lens)
        else None
      })"

text \<open>
  \<open>all2all_t::execAsync\<close>, the branch that is compiled: the graph handler, its
  \<open>execute\<close>, a synchronisation, and the swap of the caller's vectors when the number
  of phases is even. On return the destructor of the local handler destroys the
  executable that \<open>execute\<close> has left in it; on the early returns the handler holds
  none. The result is the flag, the caller's two vectors after the call and the events
  of the call.
\<close>

definition execAsync ::
  "(graph \<Rightarrow> graph \<Rightarrow> bool) \<Rightarrow> all2all_t \<Rightarrow> buffer list \<Rightarrow> size_t list \<Rightarrow> buffer list
     \<Rightarrow> size_t list \<Rightarrow> table \<Rightarrow> (bool \<times> buffer list \<times> buffer list \<times> event list) option" where
  "execAsync exec_update a srcs srcs_lens dsts dsts_lens send_counts =
     (if \<not> inputs_ok a srcs srcs_lens dsts dsts_lens send_counts then Some (False, srcs, dsts, [])
      else do {
        transfers \<leftarrow> prepare_transfers a send_counts;
        ok \<leftarrow> cursors_ok a transfers dsts_lens;
        if \<not> ok then Some (False, srcs, dsts, [])
        else do {
          (exec, evs) \<leftarrow> execute exec_update transfers None srcs dsts;
          if num_phases transfers mod 2 = 0
          then Some (True, dsts, srcs, evs @ [SyncAllStreams, GraphExecDestroy])
          else Some (True, srcs, dsts, evs @ [SyncAllStreams, GraphExecDestroy])
        }
      })"

text \<open>
  \<open>all2all_graph_t::prepareExec\<close>: one \<open>update_graph\<close> on the engine's cached
  executable, before the cursor checks. The result also holds the engine after the
  call.
\<close>

definition prepareExec ::
  "(graph \<Rightarrow> graph \<Rightarrow> bool) \<Rightarrow> all2all_graph_t \<Rightarrow> buffer list \<Rightarrow> size_t list \<Rightarrow> buffer list
     \<Rightarrow> size_t list \<Rightarrow> table
     \<Rightarrow> (bool \<times> buffer list \<times> buffer list \<times> all2all_graph_t \<times> event list) option" where
  "prepareExec exec_update a srcs srcs_lens dsts dsts_lens send_counts =
     (if \<not> inputs_ok (all2all_t.truncate a) srcs srcs_lens dsts dsts_lens send_counts
      then Some (False, srcs, dsts, a, [])
      else do {
        transfers \<leftarrow> prepare_transfers (all2all_t.truncate a) send_counts;
        (exec, evs) \<leftarrow> update_graph exec_update transfers (execgraphTotal a) srcs dsts;
        ok \<leftarrow> cursors_ok (all2all_t.truncate a) transfers dsts_lens;
        if \<not> ok then Some (False, srcs, dsts, a \<lparr> execgraphTotal := exec \<rparr>, evs)
        else if num_phases transfers mod 2 = 0
        then Some (True, dsts, srcs, a \<lparr> execgraphTotal := exec \<rparr>, evs)
        else Some (True, srcs, dsts, a \<lparr> execgraphTotal := exec \<rparr>, evs)
      })"

text \<open>\<open>all2all_graph_t::execAsync(stream)\<close>: launches the cached executable.\<close>

definition graph_execAsync :: "all2all_graph_t \<Rightarrow> (bool \<times> event list) option" where
  "graph_execAsync a = do {
     g \<leftarrow> execgraphTotal a;
     Some (True, [GraphLaunch g])
   }"

section \<open>Auxiliary definitions for the proofs\<close>

text \<open>
  The descriptor a call appends to phase \<open>q\<close>, in one formula for every phase count:
  it reads at the source cursor in phase 0 and at the intermediate cursor of the
  previous phase boundary otherwise, and writes at the destination cursor in the last
  phase and at the intermediate cursor of its own boundary otherwise.
\<close>

definition nth_transfer :: "handler \<Rightarrow> gpu_id_t list \<Rightarrow> size_t \<Rightarrow> size_t \<Rightarrow> size_t \<Rightarrow> nat \<Rightarrow> transfer" where
  "nth_transfer h sq so to ts q =
     \<lparr> src_gpu = sq ! q,
       src_pos = (if q = 0 then so else phases_offsets h ! (q - 1) ! (sq ! q)),
       trg_gpu = sq ! (q + 1),
       trg_pos = (if q + 1 = num_phases h then to else phases_offsets h ! q ! (sq ! (q + 1))),
       len = ts \<rparr>"

text \<open>
  A caller of the split interface: \<open>prepareExec\<close> and, when it returned true, one
  \<open>execAsync(stream)\<close> on the engine it leaves. The result is the events of both calls.
\<close>

definition prepare_then_launch ::
  "(graph \<Rightarrow> graph \<Rightarrow> bool) \<Rightarrow> all2all_graph_t \<Rightarrow> buffer list \<Rightarrow> size_t list \<Rightarrow> buffer list
     \<Rightarrow> size_t list \<Rightarrow> table \<Rightarrow> event list option" where
  "prepare_then_launch exec_update a srcs srcs_lens dsts dsts_lens send_counts = do {
     (ok, srcs', dsts', a', evs) \<leftarrow> prepareExec exec_update a srcs srcs_lens dsts dsts_lens send_counts;
     if ok then do {
       (ok', evs') \<leftarrow> graph_execAsync a';
       Some (evs @ evs')
     } else Some evs
   }"

text \<open>Event classification, and the number of captures before the first launch.\<close>

fun is_capture :: "event \<Rightarrow> bool" where
  "is_capture (StreamCapture g) = True"
| "is_capture e = False"

fun is_launch :: "event \<Rightarrow> bool" where
  "is_launch (GraphLaunch g) = True"
| "is_launch e = False"

definition captures_before_launch :: "event list \<Rightarrow> nat" where
  "captures_before_launch evs = length (filter is_capture (takeWhile (\<lambda>e. \<not> is_launch e) evs))"

text \<open>A handler over three devices and three phases, and a few calls on it.\<close>

definition demo_handler :: handler where
  "demo_handler = transfer_handler 3 [[0,10,15,18],[0,3,10,11],[0,2,4,6]]
      [[0,0,0],[10,5,3],[13,12,4],[15,14,6]] [[10,5,3],[3,7,1],[2,2,2]] 3 2"

definition demo_calls :: "transfer_sequence list" where
  "demo_calls = [\<lparr>seq = [0,2,1,1], seq_size = 1\<rparr>, \<lparr>seq = [1,1,0,2], seq_size = 2\<rparr>,
                 \<lparr>seq = [0,0,1,1], seq_size = 1\<rparr>]"

text \<open>
  Two engines over two devices, a one-phase and a two-phase plan, with the send counts
  of the spec's Scenario A; the runtime is taken to accept every update.
\<close>

definition always_update :: "graph \<Rightarrow> graph \<Rightarrow> bool" where
  "always_update old new = True"

definition direct_plan :: transfer_plan_t where
  "direct_plan = \<lparr> valid = True, num_gpus = 2, num_steps = 1, plan_num_chunks = 1,
     transfer_sequences = [\<lparr>seq = [0,0], seq_size = 1\<rparr>, \<lparr>seq = [0,1], seq_size = 1\<rparr>,
                           \<lparr>seq = [1,0], seq_size = 1\<rparr>, \<lparr>seq = [1,1], seq_size = 1\<rparr>] \<rparr>"

definition two_phase_plan :: transfer_plan_t where
  "two_phase_plan = \<lparr> valid = True, num_gpus = 2, num_steps = 2, plan_num_chunks = 1,
     transfer_sequences = [\<lparr>seq = [0,0,0], seq_size = 1\<rparr>, \<lparr>seq = [0,1,1], seq_size = 1\<rparr>,
                           \<lparr>seq = [1,1,0], seq_size = 1\<rparr>, \<lparr>seq = [1,1,1], seq_size = 1\<rparr>] \<rparr>"

definition direct_engine :: all2all_t where
  "direct_engine = all2all_with_plan id 2 direct_plan"

definition two_phase_engine :: all2all_t where
  "two_phase_engine = all2all_with_plan id 2 two_phase_plan"

definition fresh_graph_engine :: "all2all_t \<Rightarrow> all2all_graph_t" where
  "fresh_graph_engine a = all2all_t.extend a \<lparr> execgraphTotal = None \<rparr>"

definition scenario_a :: table where
  "scenario_a = [[10, 5], [3, 7]]"

text \<open>The column sums the vertical scan builds.\<close>

definition column_sum :: "table \<Rightarrow> nat \<Rightarrow> nat \<Rightarrow> size_t" where
  "column_sum sc gpu p = sum_list (map (\<lambda>part. sc ! part ! gpu) [0 ..< p])"

text \<open>The shape of the destination displacement table.\<close>

definition shaped :: "nat \<Rightarrow> table \<Rightarrow> bool" where
  "shaped n t \<longleftrightarrow> length t = n + 1 \<and> (\<forall>p \<le> n. length (t ! p) = n)"

text \<open>
  The nominal length of a call on the natural numbers: the per-chunk size
  \<open>ceil(sz / C)\<close> times the relative size.
\<close>

definition nominal :: "size_t \<Rightarrow> size_t \<Rightarrow> size_t \<Rightarrow> nat" where
  "nominal sz C r = ((unat sz + (unat C - 1)) div unat C) * unat r"

text \<open>
  A call fits when the end of its pair's region plus its nominal length stays below
  \<open>2^64\<close>: then none of the sums and products of the call wraps around.
\<close>

definition fits :: "table \<Rightarrow> table \<Rightarrow> size_t \<Rightarrow> transfer_sequence \<Rightarrow> bool" where
  "fits displ szs C c =
     (case at2 displ (hd (seq c)) (last (seq c)) of
        None \<Rightarrow> True
      | Some dp \<Rightarrow>
          (case at2 szs (hd (seq c)) (last (seq c)) of
             None \<Rightarrow> True
           | Some sz \<Rightarrow> unat dp + unat sz + nominal sz C (seq_size c) < 2 ^ 64))"

text \<open>A call names the pair of its first and last device.\<close>

definition names :: "gpu_id_t \<Rightarrow> gpu_id_t \<Rightarrow> transfer_sequence \<Rightarrow> bool" where
  "names s d c \<longleftrightarrow> hd (seq c) = s \<and> last (seq c) = d"

text \<open>The nominal lengths requested for a pair by a list of calls, summed.\<close>

definition requested :: "size_t \<Rightarrow> size_t \<Rightarrow> gpu_id_t \<Rightarrow> gpu_id_t \<Rightarrow> transfer_sequence list \<Rightarrow> nat" where
  "requested sz C s d calls =
     sum_list (map (\<lambda>c. nominal sz C (seq_size c)) (filter (names s d) calls))"

text \<open>The source-side range \<open>[src_pos, src_pos + len)\<close> a descriptor claims.\<close>

definition src_range :: "transfer \<Rightarrow> nat set" where
  "src_range t = {unat (src_pos t) ..< unat (src_pos t) + unat (len t)}"

text \<open>Where a cursor that starts at \<open>dp\<close> stands after \<open>x\<close> requested elements.\<close>

definition reach :: "size_t \<Rightarrow> size_t \<Rightarrow> nat \<Rightarrow> nat" where
  "reach dp sz x = min (unat dp + x) (unat dp + unat sz)"

text \<open>
  Send counts whose first row fills the source buffer up to the largest \<open>size_t\<close>:
  the region of the pair \<open>(0, 1)\<close> is \<open>[2^64 - 6, 2^64 - 1)\<close>. The handler is the
  one the orchestrator builds from them for a one-phase plan of two chunks, and the
  calls are those of a plan whose relative sizes sum to the chunk count for every pair.
\<close>

definition edge_counts :: table where
  "edge_counts = [[18446744073709551610, 5], [0, 0]]"

definition edge_handler :: handler where
  "edge_handler =
     transfer_handler 2 [[0, 18446744073709551610, 18446744073709551615], [0, 0, 0]]
       [[0, 0], [18446744073709551610, 5], [18446744073709551610, 5]] edge_counts 1 2"

definition edge_calls :: "transfer_sequence list" where
  "edge_calls =
     [\<lparr>seq = [0, 0], seq_size = 2\<rparr>, \<lparr>seq = [0, 1], seq_size = 1\<rparr>,
      \<lparr>seq = [0, 1], seq_size = 1\<rparr>, \<lparr>seq = [1, 0], seq_size = 2\<rparr>,
      \<lparr>seq = [1, 1], seq_size = 2\<rparr>]"

definition edge_engine :: all2all_t where
  "edge_engine = all2all_with_plan id 2
     \<lparr> valid = True, num_gpus = 2, num_steps = 1, plan_num_chunks = 2,
       transfer_sequences = edge_calls \<rparr>"

text \<open>The relative sizes a list of calls requests for a pair, summed.\<close>

definition relative_total :: "gpu_id_t \<Rightarrow> gpu_id_t \<Rightarrow> transfer_sequence list \<Rightarrow> nat" where
  "relative_total s d calls = sum_list (map (\<lambda>c. unat (seq_size c)) (filter (names s d) calls))"

text \<open>The lengths of the descriptors of phase \<open>p\<close> whose destination device is \<open>d\<close>.\<close>

definition lengths_into :: "nat \<Rightarrow> gpu_id_t \<Rightarrow> handler \<Rightarrow> nat list" where
  "lengths_into p d h = map (\<lambda>t. unat (len t)) (filter (\<lambda>t. trg_gpu t = d) (phases h ! p))"

text \<open>
  The union of the source ranges of the first-phase descriptors of the calls that
  name a pair.
\<close>

definition claimed :: "gpu_id_t \<Rightarrow> gpu_id_t \<Rightarrow> transfer_sequence list \<Rightarrow> handler \<Rightarrow> nat set" where
  "claimed s d calls h =
     \<Union> (set (map (\<lambda>i. src_range (phases h ! 0 ! i))
                (filter (\<lambda>i. names s d (calls ! i)) [0 ..< length calls])))"

text \<open>The source cursor of a pair.\<close>

definition source_cursor :: "gpu_id_t \<Rightarrow> gpu_id_t \<Rightarrow> handler \<Rightarrow> size_t option" where
  "source_cursor s d h = at2 (src_offsets h) s d"

text \<open>A size resolution, and a call, on the handler that earlier calls have left.\<close>

definition then_resolve ::
  "handler option \<Rightarrow> gpu_id_t list \<Rightarrow> size_t \<Rightarrow> (size_t \<times> size_t \<times> size_t) option" where
  "then_resolve ho sq r = Option.bind ho (\<lambda>h. resolve h sq r)"

definition then_call ::
  "handler option \<Rightarrow> gpu_id_t list \<Rightarrow> size_t \<Rightarrow> (bool \<times> handler) option" where
  "then_call ho sq r = Option.bind ho (\<lambda>h. add_transfer h sq r)"

section \<open>Tables and loops\<close>

lemma at2_Some: "at2 t i j = Some v \<longleftrightarrow> i < length t \<and> j < length (t ! i) \<and> v = t ! i ! j"
  by (auto simp: at2_def)

lemma at2_set2:
  "at2 (set2 t i j v) i' j' =
     (if i' = i \<and> j' = j \<and> i < length t \<and> j < length (t ! i) then Some v else at2 t i' j')"
proof (cases "i' = i")
  case True
  then show ?thesis by (cases "i < length t") (auto simp: at2_def set2_def nth_list_update)
next
  case False
  then show ?thesis by (auto simp: at2_def set2_def nth_list_update)
qed

lemma emplace_back_Some:
  "emplace_back phs p t = Some phs' \<longleftrightarrow> p < length phs \<and> phs' = phs[p := phs ! p @ [t]]"
  by (auto simp: emplace_back_def)

lemma emit_middle_length:
  "emit_middle po sq ts ps phs = Some phs' \<Longrightarrow> length phs' = length phs"
  by (induction ps arbitrary: phs) (auto simp: emplace_back_Some split: Option.bind_splits)

lemma emit_middle_nth:
  "emit_middle po sq ts ps phs = Some phs' \<Longrightarrow> distinct ps \<Longrightarrow> q < length phs \<Longrightarrow>
   phs' ! q = (if q \<in> set ps then phs ! q @ [the (middle_transfer po sq ts q)] else phs ! q)"
proof (induction ps arbitrary: phs)
  case Nil
  then show ?case by simp
next
  case (Cons p ps)
  from Cons.prems(1) obtain t where t: "middle_transfer po sq ts p = Some t"
    and p: "p < length phs"
    and r: "emit_middle po sq ts ps (phs[p := phs ! p @ [t]]) = Some phs'"
    by (auto simp: emplace_back_Some split: Option.bind_splits)
  from Cons.IH [OF r] Cons.prems(2,3) t p show ?case
    by (auto simp: nth_list_update)
qed

lemma emit_middle_set:
  "emit_middle po sq ts ps phs = Some phs' \<Longrightarrow> q \<in> set ps \<Longrightarrow>
   q < length phs \<and> middle_transfer po sq ts q \<noteq> None"
proof (induction ps arbitrary: phs)
  case Nil
  then show ?case by simp
next
  case (Cons p ps)
  from Cons.prems(1) obtain t where t: "middle_transfer po sq ts p = Some t"
    and p: "p < length phs"
    and r: "emit_middle po sq ts ps (phs[p := phs ! p @ [t]]) = Some phs'"
    by (auto simp: emplace_back_Some split: Option.bind_splits)
  show ?case
  proof (cases "q = p")
    case True
    with t p show ?thesis by simp
  next
    case False
    with Cons.prems(2) have "q \<in> set ps" by simp
    from Cons.IH [OF r this] show ?thesis by simp
  qed
qed

lemma advance_phases_at2:
  "advance_phases po sq ts ps = Some po' \<Longrightarrow> distinct ps \<Longrightarrow>
   at2 po' p j = (if p \<in> set ps \<and> j = sq ! (p + 1) then map_option (\<lambda>c. c + ts) (at2 po p j) else at2 po p j)"
proof (induction ps arbitrary: po)
  case Nil
  then show ?case by simp
next
  case (Cons a ps)
  from Cons.prems(1) obtain c where c: "at2 po a (sq ! (a + 1)) = Some c"
    and r: "advance_phases (set2 po a (sq ! (a + 1)) (c + ts)) sq ts ps = Some po'"
    by (auto split: Option.bind_splits)
  from c have inr: "a < length po" "sq ! (a + 1) < length (po ! a)"
    by (auto simp: at2_Some)
  from Cons.IH [OF r] Cons.prems(2) c inr show ?case
    by (auto simp: at2_set2)
qed

lemma advance_phases_set:
  "advance_phases po sq ts ps = Some po' \<Longrightarrow> p \<in> set ps \<Longrightarrow> distinct ps \<Longrightarrow>
   at2 po p (sq ! (p + 1)) \<noteq> None"
proof (induction ps arbitrary: po)
  case Nil
  then show ?case by simp
next
  case (Cons a ps)
  from Cons.prems(1) obtain c where c: "at2 po a (sq ! (a + 1)) = Some c"
    and r: "advance_phases (set2 po a (sq ! (a + 1)) (c + ts)) sq ts ps = Some po'"
    by (auto split: Option.bind_splits)
  show ?case
  proof (cases "p = a")
    case True
    with c show ?thesis by simp
  next
    case False
    with Cons.prems have "p \<in> set ps" "distinct ps" by auto
    from Cons.IH [OF r this] False show ?thesis
      by (auto simp: at2_set2 split: if_splits)
  qed
qed

section \<open>One call of the bookkeeper\<close>

lemma first_transfer_Some:
  "first_transfer (phases_offsets h) sq so ts = Some t \<Longrightarrow> num_phases h \<noteq> 1 \<Longrightarrow>
   t = nth_transfer h sq so to ts 0"
  by (auto simp: first_transfer_def nth_transfer_def at2_Some split: Option.bind_splits)

lemma middle_transfer_Some:
  "middle_transfer (phases_offsets h) sq ts q = Some t \<Longrightarrow> 0 < q \<Longrightarrow> q + 1 < num_phases h \<Longrightarrow>
   t = nth_transfer h sq so to ts q"
  by (auto simp: middle_transfer_def nth_transfer_def at2_Some split: Option.bind_splits)

lemma last_transfer_Some:
  "last_transfer (phases_offsets h) sq to ts (num_phases h - 1) = Some t \<Longrightarrow> 1 < num_phases h \<Longrightarrow>
   t = nth_transfer h sq so to ts (num_phases h - 1)"
  by (auto simp: last_transfer_def nth_transfer_def at2_Some split: Option.bind_splits)

lemma emit_length:
  "emit h sq so to ts = Some phs \<Longrightarrow> length phs = length (phases h)"
  by (auto simp: emit_def emplace_back_Some dest!: emit_middle_length
           split: if_splits Option.bind_splits)

lemma emit_phases:
  assumes "emit h sq so to ts = Some phs"
  shows "0 < num_phases h \<and> num_phases h \<le> length (phases h)"
  using assms
  by (auto simp: emit_def emplace_back_Some Suc_le_eq dest!: emit_middle_length
           split: if_splits Option.bind_splits)

lemma emit_nth:
  assumes e: "emit h sq so to ts = Some phs" and q: "q < length (phases h)"
  shows "phs ! q = (if q < num_phases h then phases h ! q @ [nth_transfer h sq so to ts q]
                    else phases h ! q)"
proof (cases "num_phases h = 1")
  case True
  with e q show ?thesis
    by (auto simp: emit_def emplace_back_Some nth_transfer_def nth_list_update)
next
  case False
  with e have P: "1 < num_phases h"
    by (auto simp: emit_def split: if_splits)
  let ?P = "num_phases h"
  from e False P obtain t0 p1 tl where
    t0: "first_transfer (phases_offsets h) sq so ts = Some t0" and
    l0: "0 < length (phases h)" and
    p1: "emit_middle (phases_offsets h) sq ts [1 ..< ?P - 1] ((phases h)[0 := phases h ! 0 @ [t0]]) = Some p1" and
    tl: "last_transfer (phases_offsets h) sq to ts (?P - 1) = Some tl" and
    l1: "?P - 1 < length p1" and
    phs: "phs = p1[?P - 1 := p1 ! (?P - 1) @ [tl]]"
    by (auto simp: emit_def emplace_back_Some split: if_splits Option.bind_splits)
  have t0': "t0 = nth_transfer h sq so to ts 0"
    using first_transfer_Some [OF t0 False] .
  have tl': "tl = nth_transfer h sq so to ts (?P - 1)"
    using last_transfer_Some [OF tl P] .
  have len1: "length p1 = length (phases h)"
    using emit_middle_length [OF p1] by simp
  have nth1: "p1 ! q = (if q \<in> set [1 ..< ?P - 1]
        then ((phases h)[0 := phases h ! 0 @ [t0]]) ! q @ [the (middle_transfer (phases_offsets h) sq ts q)]
        else ((phases h)[0 := phases h ! 0 @ [t0]]) ! q)"
    using emit_middle_nth [OF p1, of q] q by simp
  consider "q = 0" | "0 < q" "q + 1 < ?P" | "q + 1 = ?P" | "?P \<le> q" by linarith
  then show ?thesis
  proof cases
    case 1
    with P q nth1 phs len1 t0' show ?thesis by (simp add: nth_list_update)
  next
    case 2
    then have m: "q \<in> set [1 ..< ?P - 1]" by auto
    from emit_middle_set [OF p1 m] obtain t where t: "middle_transfer (phases_offsets h) sq ts q = Some t"
      by auto
    from middle_transfer_Some [OF t 2] have "t = nth_transfer h sq so to ts q" .
    with 2 m t P q nth1 phs len1 show ?thesis by (simp add: nth_list_update)
  next
    case 3
    with P have qq: "q = ?P - 1" "q \<noteq> 0" "q \<notin> set [1 ..< ?P - 1]" by auto
    with P q nth1 phs len1 tl' show ?thesis by (simp add: nth_list_update)
  next
    case 4
    with P have qq: "q \<noteq> ?P - 1" "q \<noteq> 0" "q \<notin> set [1 ..< ?P - 1]" by auto
    with 4 P q nth1 phs len1 show ?thesis by (simp add: nth_list_update)
  qed
qed

lemma resolve_Some:
  assumes "resolve h sq r = Some (so, to, ts)"
  shows "at2 (src_offsets h) (hd sq) (last sq) = Some so"
    and "at2 (trg_offsets h) (hd sq) (last sq) = Some to"
    and "num_chunks h \<noteq> 0"
    and "\<exists>sz displ. at2 (sizes h) (hd sq) (last sq) = Some sz \<and>
           at2 (src_displacements h) (hd sq) (last sq) = Some displ \<and>
           ts = (if so + SDIV sz (num_chunks h) * r > displ + sz then displ + sz - so
                 else SDIV sz (num_chunks h) * r)"
  using assms
  by (auto simp: resolve_def Let_def split: Option.bind_splits if_splits)

lemma add_transfer_False:
  "add_transfer h sq r = Some (False, h') \<longleftrightarrow> length sq \<noteq> num_phases h + 1 \<and> h' = h"
  by (auto simp: add_transfer_def check_def split: Option.bind_splits)

lemma add_transfer_True:
  assumes "add_transfer h sq r = Some (True, h')"
  obtains so to ts phs po where
    "length sq = num_phases h + 1"
    "resolve h sq r = Some (so, to, ts)"
    "emit h sq so to ts = Some phs"
    "advance_phases (phases_offsets h) sq ts [0 ..< num_phases h - 1] = Some po"
    "h' = h \<lparr> src_offsets := set2 (src_offsets h) (hd sq) (last sq) (so + ts),
               phases_offsets := po,
               trg_offsets := set2 (trg_offsets h) (hd sq) (last sq) (to + ts),
               phases := phs \<rparr>"
  using assms
  by (auto simp: add_transfer_def check_def split: Option.bind_splits if_splits)

text \<open>
  Claim C4. A successful call with more than one phase appends exactly one descriptor
  to each of the \<open>P\<close> phase lists, all of the resolved length; the descriptor of phase
  \<open>p > 0\<close> reads on the device and at the offset where the descriptor of phase
  \<open>p - 1\<close> writes; and the source cursor, the \<open>P - 1\<close> intermediate cursors on the
  route and the destination cursor each move by exactly the resolved length.
\<close>

theorem add_transfer_chains_phases:
  assumes ok: "add_transfer h sq r = Some (True, h')" and P: "1 < num_phases h"
  shows "\<exists>so to ts ds.
     resolve h sq r = Some (so, to, ts) \<and>
     length ds = num_phases h \<and> num_phases h \<le> length (phases h) \<and>
     length (phases h') = length (phases h) \<and>
     (\<forall>p < length (phases h).
        phases h' ! p = (if p < num_phases h then phases h ! p @ [ds ! p] else phases h ! p)) \<and>
     (\<forall>p < num_phases h. len (ds ! p) = ts) \<and>
     src_pos (ds ! 0) = so \<and> trg_pos (ds ! (num_phases h - 1)) = to \<and>
     (\<forall>p. 0 < p \<and> p < num_phases h \<longrightarrow>
        src_gpu (ds ! p) = trg_gpu (ds ! (p - 1)) \<and> src_pos (ds ! p) = trg_pos (ds ! (p - 1))) \<and>
     at2 (src_offsets h) (hd sq) (last sq) = Some so \<and>
     at2 (src_offsets h') (hd sq) (last sq) = Some (so + ts) \<and>
     at2 (trg_offsets h) (hd sq) (last sq) = Some to \<and>
     at2 (trg_offsets h') (hd sq) (last sq) = Some (to + ts) \<and>
     (\<forall>p < num_phases h - 1. \<exists>c.
        at2 (phases_offsets h) p (sq ! (p + 1)) = Some c \<and>
        at2 (phases_offsets h') p (sq ! (p + 1)) = Some (c + ts))"
proof -
  from ok obtain so to ts phs po where
    r: "resolve h sq r = Some (so, to, ts)" and
    e: "emit h sq so to ts = Some phs" and
    a: "advance_phases (phases_offsets h) sq ts [0 ..< num_phases h - 1] = Some po" and
    h': "h' = h \<lparr> src_offsets := set2 (src_offsets h) (hd sq) (last sq) (so + ts),
               phases_offsets := po,
               trg_offsets := set2 (trg_offsets h) (hd sq) (last sq) (to + ts),
               phases := phs \<rparr>"
    by (rule add_transfer_True)
  define ds where "ds = map (nth_transfer h sq so to ts) [0 ..< num_phases h]"
  have 1: "length ds = num_phases h" by (simp add: ds_def)
  have 2: "num_phases h \<le> length (phases h)" using emit_phases [OF e] by simp
  have 3: "length (phases h') = length (phases h)" using emit_length [OF e] h' by simp
  have 4: "\<forall>p < length (phases h).
        phases h' ! p = (if p < num_phases h then phases h ! p @ [ds ! p] else phases h ! p)"
    using emit_nth [OF e] h' by (simp add: ds_def)
  have 5: "\<forall>p < num_phases h. len (ds ! p) = ts"
    by (simp add: ds_def nth_transfer_def)
  have 6: "src_pos (ds ! 0) = so" "trg_pos (ds ! (num_phases h - 1)) = to"
    using P by (simp_all add: ds_def nth_transfer_def)
  have 7: "\<forall>p. 0 < p \<and> p < num_phases h \<longrightarrow>
        src_gpu (ds ! p) = trg_gpu (ds ! (p - 1)) \<and> src_pos (ds ! p) = trg_pos (ds ! (p - 1))"
    by (auto simp: ds_def nth_transfer_def)
  note rs = resolve_Some [OF r]
  have 8: "at2 (src_offsets h') (hd sq) (last sq) = Some (so + ts)"
    using rs(1) h' by (simp add: at2_set2 at2_Some)
  have 9: "at2 (trg_offsets h') (hd sq) (last sq) = Some (to + ts)"
    using rs(2) h' by (simp add: at2_set2 at2_Some)
  have 10: "\<forall>p < num_phases h - 1. \<exists>c.
        at2 (phases_offsets h) p (sq ! (p + 1)) = Some c \<and>
        at2 (phases_offsets h') p (sq ! (p + 1)) = Some (c + ts)"
  proof (intro allI impI)
    fix p assume p: "p < num_phases h - 1"
    then have m: "p \<in> set [0 ..< num_phases h - 1]" by simp
    from advance_phases_set [OF a m] obtain c where c: "at2 (phases_offsets h) p (sq ! (p + 1)) = Some c"
      by auto
    from advance_phases_at2 [OF a, of p "sq ! (p + 1)"] m c h'
    have "at2 (phases_offsets h') p (sq ! (p + 1)) = Some (c + ts)" by simp
    with c show "\<exists>c. at2 (phases_offsets h) p (sq ! (p + 1)) = Some c \<and>
        at2 (phases_offsets h') p (sq ! (p + 1)) = Some (c + ts)" by blast
  qed
  from r 1 2 3 4 5 6 7 rs(1,2) 8 9 10 show ?thesis by blast
qed

lemma demo_step: "map_option fst (add_transfer demo_handler [0,2,1,1] 3) = Some True"
  by code_simp

lemma demo_phases: "1 < num_phases demo_handler"
  by code_simp

theorem add_transfer_chains_phases_witness:
  "\<exists>h'. add_transfer demo_handler [0,2,1,1] 3 = Some (True, h') \<and>
     1 < num_phases demo_handler \<and>
     (\<exists>so to ts ds.
        resolve demo_handler [0,2,1,1] 3 = Some (so, to, ts) \<and>
        length ds = num_phases demo_handler \<and>
        (\<forall>p < length (phases demo_handler).
           phases h' ! p = (if p < num_phases demo_handler then phases demo_handler ! p @ [ds ! p]
                            else phases demo_handler ! p)) \<and>
        (\<forall>p < num_phases demo_handler. len (ds ! p) = ts) \<and>
        at2 (src_offsets h') (hd [0,2,1,1]) (last [0,2,1,1]) = Some (so + ts))"
proof -
  from demo_step obtain h' where s: "add_transfer demo_handler [0,2,1,1] 3 = Some (True, h')"
    by (cases "add_transfer demo_handler [0,2,1,1] 3") auto
  from add_transfer_chains_phases [OF s demo_phases] s demo_phases show ?thesis
    by blast
qed



lemma add_transfer_frame:
  assumes "add_transfer h sq r = Some (ok, h')"
  shows "sizes h' = sizes h" "src_displacements h' = src_displacements h"
    "num_phases h' = num_phases h" "num_chunks h' = num_chunks h"
  using assms
  by (cases ok; auto simp: add_transfer_False elim!: add_transfer_True)+

lemma add_transfer_cursors:
  assumes st: "add_transfer h sq r = Some (ok, h')"
    and a: "at2 (src_offsets h) s d = Some a" and b: "at2 (trg_offsets h) s d = Some b"
  shows "\<exists>ts. at2 (src_offsets h') s d = Some (a + ts) \<and>
              at2 (trg_offsets h') s d = Some (b + ts) \<and>
              (hd sq \<noteq> s \<or> last sq \<noteq> d \<longrightarrow> ts = 0)"
proof (cases ok)
  case False
  with st have "h' = h" by (simp add: add_transfer_False)
  with a b show ?thesis by (intro exI [of _ 0]) simp
next
  case True
  with st obtain so to ts phs po where
    r: "resolve h sq r = Some (so, to, ts)" and
    h': "h' = h \<lparr> src_offsets := set2 (src_offsets h) (hd sq) (last sq) (so + ts),
               phases_offsets := po,
               trg_offsets := set2 (trg_offsets h) (hd sq) (last sq) (to + ts),
               phases := phs \<rparr>"
    by (auto elim: add_transfer_True)
  note rs = resolve_Some [OF r]
  show ?thesis
  proof (cases "hd sq = s \<and> last sq = d")
    case True
    with rs(1,2) a b have "so = a" "to = b" by simp_all
    with True rs(1,2) h' show ?thesis
      by (intro exI [of _ ts]) (simp add: at2_set2 at2_Some)
  next
    case False
    with a b h' show ?thesis
      by (intro exI [of _ 0]) (auto simp: at2_set2)
  qed
qed

lemma run_cursors:
  "run h calls = Some h' \<Longrightarrow> at2 (src_offsets h) s d = Some a \<Longrightarrow>
   at2 (trg_offsets h) s d = Some b \<Longrightarrow>
   \<exists>total. at2 (src_offsets h') s d = Some (a + total) \<and>
           at2 (trg_offsets h') s d = Some (b + total)"
proof (induction calls arbitrary: h a b)
  case Nil
  then show ?case by (intro exI [of _ 0]) simp
next
  case (Cons c cs)
  from Cons.prems(1) obtain ok h1 where
    st: "add_transfer h (seq c) (seq_size c) = Some (ok, h1)" and rest: "run h1 cs = Some h'"
    by (auto split: Option.bind_splits)
  from add_transfer_cursors [OF st Cons.prems(2,3)] obtain ts where
    1: "at2 (src_offsets h1) s d = Some (a + ts)" "at2 (trg_offsets h1) s d = Some (b + ts)"
    by blast
  from Cons.IH [OF rest 1] obtain total where
    "at2 (src_offsets h') s d = Some (a + ts + total)"
    "at2 (trg_offsets h') s d = Some (b + ts + total)" by blast
  then show ?case by (intro exI [of _ "ts + total"]) (simp add: add.assoc)
qed

text \<open>
  Claim C10. On a freshly constructed handler, after any sequence of calls, the source
  cursor and the destination cursor of every pair \<open>(s, d)\<close> have moved by the same
  amount from their displacements; and any further call moves both by the same length,
  which is zero unless the call names the pair.
\<close>

theorem cursors_advance_together:
  assumes "run (transfer_handler n src_displ trg_displ szs P C) calls = Some h"
    and "at2 src_displ s d = Some sd" and "at2 trg_displ s d = Some td"
  shows "\<exists>so to. at2 (src_offsets h) s d = Some so \<and> at2 (trg_offsets h) s d = Some to \<and>
           so - sd = to - td \<and>
           (\<forall>sq r ok h2. add_transfer h sq r = Some (ok, h2) \<longrightarrow>
              (\<exists>ts. at2 (src_offsets h2) s d = Some (so + ts) \<and>
                    at2 (trg_offsets h2) s d = Some (to + ts) \<and>
                    (hd sq \<noteq> s \<or> last sq \<noteq> d \<longrightarrow> ts = 0)))"
proof -
  let ?h0 = "transfer_handler n src_displ trg_displ szs P C"
  have "at2 (src_offsets ?h0) s d = Some sd" "at2 (trg_offsets ?h0) s d = Some td"
    using assms(2,3) by (simp_all add: transfer_handler_def)
  from run_cursors [OF assms(1) this] obtain total where
    t: "at2 (src_offsets h) s d = Some (sd + total)" "at2 (trg_offsets h) s d = Some (td + total)"
    by blast
  have "\<forall>sq r ok h2. add_transfer h sq r = Some (ok, h2) \<longrightarrow>
              (\<exists>ts. at2 (src_offsets h2) s d = Some (sd + total + ts) \<and>
                    at2 (trg_offsets h2) s d = Some (td + total + ts) \<and>
                    (hd sq \<noteq> s \<or> last sq \<noteq> d \<longrightarrow> ts = 0))"
    using add_transfer_cursors [OF _ t] by blast
  with t show ?thesis by simp
qed

lemma demo_run_some: "map_option num_phases (run demo_handler demo_calls) = Some 3"
  by code_simp

lemma demo_displ: "at2 [[0,10,15,18],[0,3,10,11],[0,2,4,6]] 0 1 = Some (10 :: size_t)"
  "at2 [[0,0,0],[10,5,3],[13,12,4],[15,14,6]] 0 1 = Some (0 :: size_t)"
  by (simp_all add: at2_def)

theorem cursors_advance_together_witness:
  "\<exists>h. run demo_handler demo_calls = Some h \<and>
     at2 [[0,10,15,18],[0,3,10,11],[0,2,4,6]] 0 1 = Some (10 :: size_t) \<and>
     at2 [[0,0,0],[10,5,3],[13,12,4],[15,14,6]] 0 1 = Some (0 :: size_t) \<and>
     (\<exists>so to. at2 (src_offsets h) 0 1 = Some so \<and> at2 (trg_offsets h) 0 1 = Some to \<and>
        so - 10 = to - 0)"
proof -
  from demo_run_some obtain h where r: "run demo_handler demo_calls = Some h"
    by (cases "run demo_handler demo_calls") auto
  from cursors_advance_together [OF r [unfolded demo_handler_def] demo_displ] r demo_displ
  show ?thesis by blast
qed


lemma run_num_phases: "run h calls = Some h' \<Longrightarrow> num_phases h' = num_phases h"
proof (induction calls arbitrary: h)
  case Nil
  then show ?case by simp
next
  case (Cons c cs)
  from Cons.prems obtain ok h1 where
    st: "add_transfer h (seq c) (seq_size c) = Some (ok, h1)" and rest: "run h1 cs = Some h'"
    by (auto split: Option.bind_splits)
  from Cons.IH [OF rest] add_transfer_frame(3) [OF st] show ?case by simp
qed

lemma prepare_transfers_num_phases:
  "prepare_transfers a sc = Some h \<Longrightarrow> num_phases h = num_steps (transfer_plan a)"
  by (auto simp: prepare_transfers_def Let_def transfer_handler_def dest!: run_num_phases)

text \<open>
  Claim C5. A call of \<open>execAsync\<close> or \<open>prepareExec\<close> that returns true leaves the
  caller's source and destination vectors exchanged when the plan's phase count is
  even, and exactly as passed in when it is odd.
\<close>

theorem swap_iff_even:
  "(execAsync upd a srcs srcs_lens dsts dsts_lens sc = Some (True, srcs', dsts', evs) \<longrightarrow>
      (even (num_steps (transfer_plan a)) \<longrightarrow> srcs' = dsts \<and> dsts' = srcs) \<and>
      (odd (num_steps (transfer_plan a)) \<longrightarrow> srcs' = srcs \<and> dsts' = dsts)) \<and>
   (prepareExec upd g srcs srcs_lens dsts dsts_lens sc = Some (True, srcs'', dsts'', g', evs') \<longrightarrow>
      (even (num_steps (transfer_plan g)) \<longrightarrow> srcs'' = dsts \<and> dsts'' = srcs) \<and>
      (odd (num_steps (transfer_plan g)) \<longrightarrow> srcs'' = srcs \<and> dsts'' = dsts))"
proof (intro conjI impI)
  assume e: "execAsync upd a srcs srcs_lens dsts dsts_lens sc = Some (True, srcs', dsts', evs)"
  then obtain h where h: "prepare_transfers a sc = Some h"
    and r: "(even (num_phases h) \<longrightarrow> srcs' = dsts \<and> dsts' = srcs) \<and>
            (odd (num_phases h) \<longrightarrow> srcs' = srcs \<and> dsts' = dsts)"
    by (auto simp: execAsync_def even_iff_mod_2_eq_zero split: if_splits Option.bind_splits)
  from r prepare_transfers_num_phases [OF h]
  show "even (num_steps (transfer_plan a)) \<Longrightarrow> srcs' = dsts"
    "even (num_steps (transfer_plan a)) \<Longrightarrow> dsts' = srcs"
    "odd (num_steps (transfer_plan a)) \<Longrightarrow> srcs' = srcs"
    "odd (num_steps (transfer_plan a)) \<Longrightarrow> dsts' = dsts"
    by simp_all
next
  assume e: "prepareExec upd g srcs srcs_lens dsts dsts_lens sc = Some (True, srcs'', dsts'', g', evs')"
  then obtain h where h: "prepare_transfers (all2all_t.truncate g) sc = Some h"
    and r: "(even (num_phases h) \<longrightarrow> srcs'' = dsts \<and> dsts'' = srcs) \<and>
            (odd (num_phases h) \<longrightarrow> srcs'' = srcs \<and> dsts'' = dsts)"
    by (auto simp: prepareExec_def even_iff_mod_2_eq_zero split: if_splits Option.bind_splits)
  from prepare_transfers_num_phases [OF h]
  have "num_phases h = num_steps (transfer_plan g)" by (simp add: all2all_t.truncate_def)
  with r
  show "even (num_steps (transfer_plan g)) \<Longrightarrow> srcs'' = dsts"
    "even (num_steps (transfer_plan g)) \<Longrightarrow> dsts'' = srcs"
    "odd (num_steps (transfer_plan g)) \<Longrightarrow> srcs'' = srcs"
    "odd (num_steps (transfer_plan g)) \<Longrightarrow> dsts'' = dsts"
    by simp_all
qed

lemma inputs_ok_iff:
  "inputs_ok a srcs srcs_lens dsts dsts_lens sc \<longleftrightarrow>
     plan_valid a \<and> length srcs = context_num_devices a \<and>
     length srcs_lens = context_num_devices a \<and> length dsts = context_num_devices a \<and>
     length dsts_lens = context_num_devices a \<and> length sc = context_num_devices a \<and>
     (\<forall>counts \<in> set sc. length counts = context_num_devices a)"
  by (auto simp: inputs_ok_def check_def Let_def list_all_iff)

text \<open>
  Claim C9. A pointer or length vector whose size is not the device count, a send-count
  table that is not \<open>N \<times> N\<close> or an invalid plan makes \<open>execAsync\<close> and
  \<open>prepareExec\<close> return false with the caller's vectors and the engine unchanged and
  no event issued; a plan that is invalid or disagrees with the device count leaves
  \<open>plan_valid\<close> false; a hop sequence whose length is not \<open>P + 1\<close> makes
  \<open>add_transfer\<close> and \<open>push_back\<close> return false with the handler unchanged.
\<close>

theorem configuration_errors_return_false:
  "(\<not> plan_valid a \<or> length srcs \<noteq> context_num_devices a \<or>
    length srcs_lens \<noteq> context_num_devices a \<or> length dsts \<noteq> context_num_devices a \<or>
    length dsts_lens \<noteq> context_num_devices a \<or> length sc \<noteq> context_num_devices a \<or>
    (\<exists>counts \<in> set sc. length counts \<noteq> context_num_devices a) \<longrightarrow>
      execAsync upd a srcs srcs_lens dsts dsts_lens sc = Some (False, srcs, dsts, []) \<and>
      prepareExec upd (all2all_t.extend a \<lparr> execgraphTotal = exec \<rparr>) srcs srcs_lens dsts dsts_lens sc =
        Some (False, srcs, dsts, all2all_t.extend a \<lparr> execgraphTotal = exec \<rparr>, [])) \<and>
   (\<not> valid (if \<not> valid plan then verify_plan plan else plan) \<or>
    n \<noteq> num_gpus (if \<not> valid plan then verify_plan plan else plan) \<longrightarrow>
      \<not> plan_valid (all2all_with_plan verify_plan n plan)) \<and>
   (length sq \<noteq> num_phases h + 1 \<longrightarrow>
      add_transfer h sq r = Some (False, h) \<and> push_back h sq r = Some (False, h))"
proof (intro conjI impI)
  assume bad: "\<not> plan_valid a \<or> length srcs \<noteq> context_num_devices a \<or>
    length srcs_lens \<noteq> context_num_devices a \<or> length dsts \<noteq> context_num_devices a \<or>
    length dsts_lens \<noteq> context_num_devices a \<or> length sc \<noteq> context_num_devices a \<or>
    (\<exists>counts \<in> set sc. length counts \<noteq> context_num_devices a)"
  then have n: "\<not> inputs_ok a srcs srcs_lens dsts dsts_lens sc"
    by (auto simp: inputs_ok_iff)
  then show "execAsync upd a srcs srcs_lens dsts dsts_lens sc = Some (False, srcs, dsts, [])"
    by (simp add: execAsync_def)
  have "all2all_t.truncate (all2all_t.extend a \<lparr> execgraphTotal = exec \<rparr>) = a"
    by (simp add: all2all_t.truncate_def all2all_t.extend_def)
  with n show "prepareExec upd (all2all_t.extend a \<lparr> execgraphTotal = exec \<rparr>) srcs srcs_lens dsts dsts_lens sc =
        Some (False, srcs, dsts, all2all_t.extend a \<lparr> execgraphTotal = exec \<rparr>, [])"
    by (simp add: prepareExec_def)
next
  assume "\<not> valid (if \<not> valid plan then verify_plan plan else plan) \<or>
    n \<noteq> num_gpus (if \<not> valid plan then verify_plan plan else plan)"
  then show "\<not> plan_valid (all2all_with_plan verify_plan n plan)"
    by (auto simp: all2all_with_plan_def Let_def)
next
  assume "length sq \<noteq> num_phases h + 1"
  then show "add_transfer h sq r = Some (False, h)" "push_back h sq r = Some (False, h)"
    by (simp_all add: push_back_def add_transfer_def check_def)
qed

lemma demo_bad_inputs: "length [100 :: buffer] \<noteq> context_num_devices direct_engine"
  by code_simp

lemma demo_bad_plan:
  "\<not> valid (if \<not> valid (direct_plan \<lparr> valid := False \<rparr>) then id (direct_plan \<lparr> valid := False \<rparr>)
             else direct_plan \<lparr> valid := False \<rparr>)"
  by code_simp

lemma demo_bad_sequence: "length [0 :: gpu_id_t] \<noteq> num_phases demo_handler + 1"
  by code_simp

theorem configuration_errors_return_false_witness:
  "length [100 :: buffer] \<noteq> context_num_devices direct_engine \<and>
   execAsync always_update direct_engine [100] [15, 10] [200, 201] [13, 12] scenario_a =
     Some (False, [100], [200, 201], []) \<and>
   prepareExec always_update (all2all_t.extend direct_engine \<lparr> execgraphTotal = None \<rparr>)
       [100] [15, 10] [200, 201] [13, 12] scenario_a =
     Some (False, [100], [200, 201], all2all_t.extend direct_engine \<lparr> execgraphTotal = None \<rparr>, []) \<and>
   \<not> plan_valid (all2all_with_plan id 2 (direct_plan \<lparr> valid := False \<rparr>)) \<and>
   length [0 :: gpu_id_t] \<noteq> num_phases demo_handler + 1 \<and>
   add_transfer demo_handler [0] 1 = Some (False, demo_handler) \<and>
   push_back demo_handler [0] 1 = Some (False, demo_handler)"
  using configuration_errors_return_false
    [of direct_engine "[100]" "[15, 10]" "[200, 201]" "[13, 12]" scenario_a always_update None
        "direct_plan \<lparr> valid := False \<rparr>" id 2 "[0]" demo_handler 1]
    demo_bad_inputs demo_bad_plan demo_bad_sequence
  by blast


lemma demo_even_run:
  "map_option fst (execAsync always_update two_phase_engine [100, 101] [15, 10] [200, 201] [13, 15] scenario_a)
     = Some True"
  by code_simp

lemma demo_odd_run:
  "map_option fst (prepareExec always_update (fresh_graph_engine direct_engine)
      [100, 101] [15, 10] [200, 201] [13, 15] scenario_a) = Some True"
  by code_simp

lemma demo_parities:
  "even (num_steps (transfer_plan two_phase_engine))"
  "odd (num_steps (transfer_plan (fresh_graph_engine direct_engine)))"
  by code_simp+

theorem swap_iff_even_witness:
  "(\<exists>srcs' dsts' evs.
      execAsync always_update two_phase_engine [100, 101] [15, 10] [200, 201] [13, 15] scenario_a
        = Some (True, srcs', dsts', evs) \<and>
      even (num_steps (transfer_plan two_phase_engine)) \<and>
      srcs' = [200, 201] \<and> dsts' = [100, 101]) \<and>
   (\<exists>srcs' dsts' g' evs.
      prepareExec always_update (fresh_graph_engine direct_engine)
        [100, 101] [15, 10] [200, 201] [13, 15] scenario_a = Some (True, srcs', dsts', g', evs) \<and>
      odd (num_steps (transfer_plan (fresh_graph_engine direct_engine))) \<and>
      srcs' = [100, 101] \<and> dsts' = [200, 201])"
proof -
  from demo_even_run obtain s1 d1 e1 where
    1: "execAsync always_update two_phase_engine [100, 101] [15, 10] [200, 201] [13, 15] scenario_a
        = Some (True, s1, d1, e1)"
    by (cases "execAsync always_update two_phase_engine [100, 101] [15, 10] [200, 201] [13, 15] scenario_a")
       auto
  from demo_odd_run obtain s2 d2 g2 e2 where
    2: "prepareExec always_update (fresh_graph_engine direct_engine)
        [100, 101] [15, 10] [200, 201] [13, 15] scenario_a = Some (True, s2, d2, g2, e2)"
    by (cases "prepareExec always_update (fresh_graph_engine direct_engine)
        [100, 101] [15, 10] [200, 201] [13, 15] scenario_a") auto
  from swap_iff_even [where upd = always_update and a = two_phase_engine and srcs = "[100, 101]"
      and srcs_lens = "[15, 10]" and dsts = "[200, 201]" and dsts_lens = "[13, 15]"
      and sc = scenario_a and srcs' = s1 and dsts' = d1 and evs = e1
      and g = "fresh_graph_engine direct_engine" and srcs'' = s2 and dsts'' = d2 and g' = g2
      and evs' = e2] 1 2 demo_parities
  show ?thesis by simp
qed

lemma update_or_instantiate_events:
  assumes "update_or_instantiate upd exec g = (e, evs)"
  shows "e = Some g" "filter is_capture evs = []" "filter is_launch evs = []"
    "exec = None \<longrightarrow> evs = [GraphInstantiate, GraphDestroy]"
    "exec \<noteq> None \<longrightarrow> (\<exists>b. hd evs = GraphExecUpdate b)"
  using assms by (auto simp: update_or_instantiate_def split: option.splits if_splits)

lemma update_graph_events:
  assumes "update_graph upd h exec srcs dsts = Some (e, evs)"
  shows "\<exists>g rest. evs = StreamCapture g # rest \<and> e = Some g \<and> capture h srcs dsts = Some g \<and>
           filter is_capture rest = [] \<and> filter is_launch rest = [] \<and>
           (exec = None \<longrightarrow> rest = [GraphInstantiate, GraphDestroy]) \<and>
           (exec \<noteq> None \<longrightarrow> (\<exists>b. hd rest = GraphExecUpdate b))"
proof -
  from assms obtain g e0 rest where g: "capture h srcs dsts = Some g"
    and u: "update_or_instantiate upd exec g = (e0, rest)"
    and r: "e = e0" "evs = StreamCapture g # rest"
    by (auto simp: update_graph_def Let_def split: Option.bind_splits prod.splits)
  from update_or_instantiate_events [OF u] g r show ?thesis by simp
qed

lemma update_phase_graph_events:
  assumes "update_phase_graph upd h exec phase srcs dsts = Some (e, evs)"
  shows "\<exists>g rest. evs = StreamCapture g # rest \<and> e = Some g \<and>
           capture_phase h srcs dsts phase = Some g \<and>
           filter is_capture rest = [] \<and> filter is_launch rest = [] \<and>
           (exec = None \<longrightarrow> rest = [GraphInstantiate, GraphDestroy]) \<and>
           (exec \<noteq> None \<longrightarrow> (\<exists>b. hd rest = GraphExecUpdate b))"
proof -
  from assms obtain g e0 rest where g: "capture_phase h srcs dsts phase = Some g"
    and u: "update_or_instantiate upd exec g = (e0, rest)"
    and r: "e = e0" "evs = StreamCapture g # rest"
    by (auto simp: update_phase_graph_def Let_def split: Option.bind_splits prod.splits)
  from update_or_instantiate_events [OF u] g r show ?thesis by simp
qed

lemma takeWhile_no_launch:
  "filter is_launch xs = [] \<Longrightarrow> takeWhile (\<lambda>e. \<not> is_launch e) (xs @ ys) = xs @ takeWhile (\<lambda>e. \<not> is_launch e) ys"
  by (induction xs) (auto split: if_splits)

lemma two_passes_then_launch:
  assumes "filter is_capture r1 = []" "filter is_launch r1 = []"
    "filter is_capture r2 = []" "filter is_launch r2 = []"
  shows "captures_before_launch (StreamCapture g1 # r1 @ StreamCapture g2 # r2 @ [GraphLaunch g]) = 2"
    and "length (filter is_launch (StreamCapture g1 # r1 @ StreamCapture g2 # r2 @ [GraphLaunch g])) = 1"
proof -
  have "filter is_launch (StreamCapture g1 # r1 @ StreamCapture g2 # r2) = []"
    using assms by simp
  from takeWhile_no_launch [OF this, of "[GraphLaunch g]"]
  have "takeWhile (\<lambda>e. \<not> is_launch e) (StreamCapture g1 # r1 @ StreamCapture g2 # r2 @ [GraphLaunch g])
        = StreamCapture g1 # r1 @ StreamCapture g2 # r2"
    by simp
  then show "captures_before_launch (StreamCapture g1 # r1 @ StreamCapture g2 # r2 @ [GraphLaunch g]) = 2"
    using assms by (simp add: captures_before_launch_def)
  show "length (filter is_launch (StreamCapture g1 # r1 @ StreamCapture g2 # r2 @ [GraphLaunch g])) = 1"
    using assms by simp
qed

lemma execute_events:
  assumes "execute upd h exec srcs dsts = Some (e, evs)"
  shows "captures_before_launch evs = 2 \<and> length (filter is_launch evs) = 1 \<and>
         (\<exists>g. e = Some g \<and> last evs = GraphLaunch g \<and> hd evs = StreamCapture g) \<and>
         (exec = None \<longrightarrow> evs ! 1 = GraphInstantiate) \<and>
         (\<exists>b. GraphExecUpdate b \<in> set evs)"
proof -
  from assms obtain e1 evs1 e2 evs2 g where
    1: "update_graph upd h exec srcs dsts = Some (e1, evs1)" and
    2: "update_graph upd h e1 srcs dsts = Some (e2, evs2)" and
    g: "e2 = Some g" and r: "e = e2" "evs = evs1 @ evs2 @ [GraphLaunch g]"
    by (auto simp: execute_def split: Option.bind_splits prod.splits)
  from update_graph_events [OF 1] obtain g1 r1 where
    a: "evs1 = StreamCapture g1 # r1" "e1 = Some g1" "capture h srcs dsts = Some g1"
       "filter is_capture r1 = []" "filter is_launch r1 = []"
       "exec = None \<longrightarrow> r1 = [GraphInstantiate, GraphDestroy]"
    by blast
  from update_graph_events [OF 2] a(2) obtain g2 r2 b where
    b: "evs2 = StreamCapture g2 # r2" "e2 = Some g2" "capture h srcs dsts = Some g2"
       "filter is_capture r2 = []" "filter is_launch r2 = []" "hd r2 = GraphExecUpdate b"
    by auto
  from b(6) have r2: "r2 \<noteq> [] \<or> r2 = []" by simp
  have mem: "GraphExecUpdate b \<in> set evs"
  proof -
    from 2 a(2) have "r2 \<noteq> []"
      using b(1) by (auto simp: update_graph_def update_or_instantiate_def Let_def
                          split: Option.bind_splits if_splits)
    with b(6) have "GraphExecUpdate b \<in> set r2" by (metis hd_in_set)
    with r b show ?thesis by simp
  qed
  from a b g have gg: "g1 = g" "g2 = g" by simp_all
  from two_passes_then_launch [OF a(4,5) b(4,5), of g1 g2 g] r a b g gg mem
  show ?thesis by (auto simp: nth_append)
qed

lemma execute_phase_events:
  assumes "execute_phase upd h exec phase srcs dsts = Some (e, evs)"
  shows "captures_before_launch evs = 2 \<and> length (filter is_launch evs) = 1 \<and>
         (\<exists>g. e = Some g \<and> last evs = GraphLaunch g \<and> hd evs = StreamCapture g) \<and>
         (exec = None \<longrightarrow> evs ! 1 = GraphInstantiate) \<and>
         (\<exists>b. GraphExecUpdate b \<in> set evs)"
proof -
  from assms obtain e1 evs1 e2 evs2 g where
    1: "update_phase_graph upd h exec phase srcs dsts = Some (e1, evs1)" and
    2: "update_phase_graph upd h e1 phase srcs dsts = Some (e2, evs2)" and
    g: "e2 = Some g" and r: "e = e2" "evs = evs1 @ evs2 @ [GraphLaunch g]"
    by (auto simp: execute_phase_def split: Option.bind_splits prod.splits)
  from update_phase_graph_events [OF 1] obtain g1 r1 where
    a: "evs1 = StreamCapture g1 # r1" "e1 = Some g1" "capture_phase h srcs dsts phase = Some g1"
       "filter is_capture r1 = []" "filter is_launch r1 = []"
       "exec = None \<longrightarrow> r1 = [GraphInstantiate, GraphDestroy]"
    by blast
  from update_phase_graph_events [OF 2] a(2) obtain g2 r2 b where
    b: "evs2 = StreamCapture g2 # r2" "e2 = Some g2" "capture_phase h srcs dsts phase = Some g2"
       "filter is_capture r2 = []" "filter is_launch r2 = []" "hd r2 = GraphExecUpdate b"
    by auto
  have mem: "GraphExecUpdate b \<in> set evs"
  proof -
    from 2 a(2) have "r2 \<noteq> []"
      using b(1) by (auto simp: update_phase_graph_def update_or_instantiate_def Let_def
                          split: Option.bind_splits if_splits)
    with b(6) have "GraphExecUpdate b \<in> set r2" by (metis hd_in_set)
    with r b show ?thesis by simp
  qed
  from a b g have gg: "g1 = g" "g2 = g" by simp_all
  from two_passes_then_launch [OF a(4,5) b(4,5), of g1 g2 g] r a b g gg mem
  show ?thesis by (auto simp: nth_append)
qed

lemma prepareExec_events:
  assumes "prepareExec upd a srcs sl dsts dl sc = Some (ok, s', d', a', evs)"
  shows "filter is_launch evs = [] \<and> length (filter is_capture evs) \<le> 1 \<and>
         (ok \<longrightarrow> (\<exists>g rest. evs = StreamCapture g # rest \<and> execgraphTotal a' = Some g \<and>
           filter is_capture rest = [] \<and> filter is_launch rest = []))"
proof (cases "inputs_ok (all2all_t.truncate a) srcs sl dsts dl sc")
  case False
  with assms show ?thesis by (simp add: prepareExec_def)
next
  case True
  with assms obtain h e where u: "update_graph upd h (execgraphTotal a) srcs dsts = Some (e, evs)"
    and a': "a' = a \<lparr> execgraphTotal := e \<rparr>"
    by (auto simp: prepareExec_def split: Option.bind_splits prod.splits if_splits)
  from update_graph_events [OF u] a' show ?thesis by auto
qed

text \<open>
  Claim C6, as the code has it. \<open>transfer_handler_graph::execute\<close> and
  \<open>execute_phase\<close> perform the capture-and-update step exactly twice before their one
  launch: on a fresh executable the first pass instantiates it and the second goes
  through the update. \<open>all2all_graph_t::prepareExec\<close> performs the step exactly once
  and launches nothing; the launch is the later \<open>execAsync(stream)\<close>, after that one
  capture.
\<close>

theorem capture_update_passes:
  "(execute upd h exec srcs dsts = Some (e, evs) \<longrightarrow>
      captures_before_launch evs = 2 \<and> length (filter is_launch evs) = 1 \<and>
      (\<exists>g. e = Some g \<and> last evs = GraphLaunch g \<and> hd evs = StreamCapture g) \<and>
      (exec = None \<longrightarrow> evs ! 1 = GraphInstantiate) \<and> (\<exists>b. GraphExecUpdate b \<in> set evs)) \<and>
   (execute_phase upd h exec phase srcs dsts = Some (e', evs') \<longrightarrow>
      captures_before_launch evs' = 2 \<and> length (filter is_launch evs') = 1 \<and>
      (\<exists>g. e' = Some g \<and> last evs' = GraphLaunch g \<and> hd evs' = StreamCapture g) \<and>
      (exec = None \<longrightarrow> evs' ! 1 = GraphInstantiate) \<and> (\<exists>b. GraphExecUpdate b \<in> set evs')) \<and>
   (prepareExec upd a srcs sl dsts dl sc = Some (True, s', d', a', pevs) \<longrightarrow>
      length (filter is_capture pevs) = 1 \<and> filter is_launch pevs = [] \<and>
      (\<exists>g. graph_execAsync a' = Some (True, [GraphLaunch g]) \<and>
           captures_before_launch (pevs @ [GraphLaunch g]) = 1))"
proof (intro conjI impI)
  assume "execute upd h exec srcs dsts = Some (e, evs)"
  from execute_events [OF this]
  show "captures_before_launch evs = 2" "length (filter is_launch evs) = 1"
    "\<exists>g. e = Some g \<and> last evs = GraphLaunch g \<and> hd evs = StreamCapture g"
    "exec = None \<Longrightarrow> evs ! 1 = GraphInstantiate" "\<exists>b. GraphExecUpdate b \<in> set evs"
    by blast+
next
  assume "execute_phase upd h exec phase srcs dsts = Some (e', evs')"
  from execute_phase_events [OF this]
  show "captures_before_launch evs' = 2" "length (filter is_launch evs') = 1"
    "\<exists>g. e' = Some g \<and> last evs' = GraphLaunch g \<and> hd evs' = StreamCapture g"
    "exec = None \<Longrightarrow> evs' ! 1 = GraphInstantiate" "\<exists>b. GraphExecUpdate b \<in> set evs'"
    by blast+
next
  assume "prepareExec upd a srcs sl dsts dl sc = Some (True, s', d', a', pevs)"
  from prepareExec_events [OF this] obtain g rest where
    p: "pevs = StreamCapture g # rest" "execgraphTotal a' = Some g"
       "filter is_capture rest = []" "filter is_launch rest = []"
    by auto
  from p show "length (filter is_capture pevs) = 1" "filter is_launch pevs = []"
    by simp_all
  have "filter is_launch pevs = []" using p by simp
  from takeWhile_no_launch [OF this, of "[GraphLaunch g]"] p
  have "captures_before_launch (pevs @ [GraphLaunch g]) = 1"
    by (simp add: captures_before_launch_def)
  with p(2) show "\<exists>g. graph_execAsync a' = Some (True, [GraphLaunch g]) \<and>
           captures_before_launch (pevs @ [GraphLaunch g]) = 1"
    by (simp add: graph_execAsync_def)
qed

text \<open>
  Claim C6 as stated fails on the split interface: with a fresh engine, a successful
  \<open>prepareExec\<close> followed by the launch has one capture before the launch, not two.
\<close>

theorem single_pass_counterexample:
  "map_option captures_before_launch
     (prepare_then_launch always_update (fresh_graph_engine direct_engine)
        [100, 101] [15, 10] [200, 201] [13, 12] scenario_a) = Some 1 \<and>
   map_option captures_before_launch
     (prepare_then_launch always_update (fresh_graph_engine direct_engine)
        [100, 101] [15, 10] [200, 201] [13, 12] scenario_a) \<noteq> Some 2"
  by code_simp

lemma demo_execute:
  "map_option (\<lambda>h. execute always_update h None [100, 101] [200, 201] \<noteq> None)
     (prepare_transfers direct_engine scenario_a) = Some True"
  by code_simp

lemma demo_execute_phase:
  "map_option (\<lambda>h. execute_phase always_update h None 0 [100, 101] [200, 201] \<noteq> None)
     (prepare_transfers direct_engine scenario_a) = Some True"
  by code_simp

lemma demo_prepare:
  "map_option fst (prepareExec always_update (fresh_graph_engine direct_engine)
      [100, 101] [15, 10] [200, 201] [13, 12] scenario_a) = Some True"
  by code_simp

theorem capture_update_passes_witness:
  "\<exists>h. prepare_transfers direct_engine scenario_a = Some h \<and>
     (\<exists>e evs. execute always_update h None [100, 101] [200, 201] = Some (e, evs) \<and>
        captures_before_launch evs = 2 \<and> evs ! 1 = GraphInstantiate) \<and>
     (\<exists>e evs. execute_phase always_update h None 0 [100, 101] [200, 201] = Some (e, evs) \<and>
        captures_before_launch evs = 2) \<and>
     (\<exists>s' d' a' pevs. prepareExec always_update (fresh_graph_engine direct_engine)
        [100, 101] [15, 10] [200, 201] [13, 12] scenario_a = Some (True, s', d', a', pevs) \<and>
        length (filter is_capture pevs) = 1)"
proof -
  from demo_execute obtain h e evs where
    h: "prepare_transfers direct_engine scenario_a = Some h" and
    1: "execute always_update h None [100, 101] [200, 201] = Some (e, evs)"
    by (cases "prepare_transfers direct_engine scenario_a") auto
  from demo_execute_phase h obtain e' evs' where
    2: "execute_phase always_update h None 0 [100, 101] [200, 201] = Some (e', evs')"
    by auto
  from demo_prepare obtain s' d' a' pevs where
    3: "prepareExec always_update (fresh_graph_engine direct_engine)
        [100, 101] [15, 10] [200, 201] [13, 12] scenario_a = Some (True, s', d', a', pevs)"
    by (cases "prepareExec always_update (fresh_graph_engine direct_engine)
        [100, 101] [15, 10] [200, 201] [13, 12] scenario_a") auto
  from capture_update_passes [where upd = always_update and h = h and exec = None
      and srcs = "[100, 101]" and dsts = "[200, 201]" and e = e and evs = evs
      and phase = 0 and e' = e' and evs' = evs'
      and a = "fresh_graph_engine direct_engine" and sl = "[15, 10]" and dl = "[13, 12]"
      and sc = scenario_a and s' = s' and d' = d' and a' = a' and pevs = pevs] h 1 2 3
  show ?thesis by auto
qed

section \<open>The displacement tables\<close>

lemma length_set2 [simp]: "length (set2 t i j v) = length t"
  by (simp add: set2_def)

lemma length_set2_row [simp]: "length (set2 t i j v ! i') = length (t ! i')"
  by (cases "i < length t") (auto simp: set2_def nth_list_update list_update_beyond)

lemma nth_set2:
  "i < length t \<Longrightarrow> j < length (t ! i) \<Longrightarrow>
   set2 t i j v ! i' ! j' = (if i' = i \<and> j' = j then v else t ! i' ! j')"
  by (cases "i' = i") (auto simp: set2_def nth_list_update)

lemma partial_sum_from_nth:
  "i < length xs \<Longrightarrow> partial_sum_from acc xs ! i = acc + sum_list (take (Suc i) xs)"
proof (induction xs arbitrary: acc i)
  case Nil
  then show ?case by simp
next
  case (Cons x xs)
  then show ?case by (cases i) (simp_all add: add.assoc)
qed

lemma length_partial_sum_from [simp]: "length (partial_sum_from acc xs) = length xs"
  by (induction xs arbitrary: acc) simp_all

lemma length_partial_sum [simp]: "length (partial_sum xs) = length xs"
  by (simp add: partial_sum_def split: list.splits)

lemma partial_sum_nth:
  "i < length xs \<Longrightarrow> partial_sum xs ! i = sum_list (take (Suc i) xs)"
  by (cases xs; cases i) (simp_all add: partial_sum_def partial_sum_from_nth)

lemma src_row:
  assumes "length ys = n"
  shows "write_at (replicate (n + 1) 0) 1 ys = 0 # ys"
  using assms by (simp add: write_at_def)

lemma src_row_nth:
  assumes "length xs = n" "d \<le> n"
  shows "(write_at (replicate (n + 1) (0 :: size_t)) 1 (partial_sum xs)) ! d = sum_list (take d xs)"
proof -
  have "write_at (replicate (n + 1) (0 :: size_t)) 1 (partial_sum xs) = 0 # partial_sum xs"
    using assms(1) by (intro src_row) simp
  then show ?thesis
    using assms by (cases d) (simp_all add: partial_sum_nth)
qed

lemma src_displacements_nth:
  assumes "s < n" "length (sc ! s) = n" "d \<le> n"
  shows "compute_src_displacements n sc ! s ! d = sum_list (take d (sc ! s))"
    and "length (compute_src_displacements n sc ! s) = n + 1"
proof -
  have row: "compute_src_displacements n sc ! s =
      write_at (replicate (n + 1) 0) 1 (partial_sum (sc ! s))"
    using assms(1) by (simp add: compute_src_displacements_def del: replicate.simps)
  show "compute_src_displacements n sc ! s ! d = sum_list (take d (sc ! s))"
    unfolding row using assms(2,3) by (rule src_row_nth)
  have "write_at (replicate (n + 1) (0 :: size_t)) 1 (partial_sum (sc ! s)) = 0 # partial_sum (sc ! s)"
    using assms(2) by (intro src_row) simp
  then show "length (compute_src_displacements n sc ! s) = n + 1"
    unfolding row using assms(2) by simp
qed

lemma inner_scan:
  assumes "shaped n t" "gpu < n" "k \<le> n"
  shows "shaped n (fold (trg_step sc gpu) [0 ..< k] t) \<and>
         (\<forall>p \<le> n. \<forall>c < n. fold (trg_step sc gpu) [0 ..< k] t ! p ! c =
            (if c = gpu \<and> 0 < p \<and> p \<le> k then t ! 0 ! gpu + column_sum sc gpu p else t ! p ! c))"
  using assms(3)
proof (induction k)
  case 0
  with assms show ?case by simp
next
  case (Suc k)
  let ?t = "fold (trg_step sc gpu) [0 ..< k] t"
  from Suc have IH: "shaped n ?t"
    "\<forall>p \<le> n. \<forall>c < n. ?t ! p ! c =
            (if c = gpu \<and> 0 < p \<and> p \<le> k then t ! 0 ! gpu + column_sum sc gpu p else t ! p ! c)"
    by simp_all
  have step: "fold (trg_step sc gpu) [0 ..< Suc k] t =
        set2 ?t (k + 1) gpu (sc ! k ! gpu + ?t ! k ! gpu)"
    by (simp add: trg_step_def)
  from IH(1) Suc.prems assms(2) have inr: "k + 1 < length ?t" "gpu < length (?t ! (k + 1))"
    by (simp_all add: shaped_def)
  have sh: "shaped n (fold (trg_step sc gpu) [0 ..< Suc k] t)"
    unfolding step using IH(1) by (simp add: shaped_def)
  have prev: "?t ! k ! gpu = t ! 0 ! gpu + column_sum sc gpu k"
    using IH(2) Suc.prems assms(2) by (cases "k = 0") (simp_all add: column_sum_def)
  have "\<forall>p \<le> n. \<forall>c < n. fold (trg_step sc gpu) [0 ..< Suc k] t ! p ! c =
            (if c = gpu \<and> 0 < p \<and> p \<le> Suc k then t ! 0 ! gpu + column_sum sc gpu p else t ! p ! c)"
  proof (intro allI impI)
    fix p c assume pc: "p \<le> n" "c < n"
    show "fold (trg_step sc gpu) [0 ..< Suc k] t ! p ! c =
            (if c = gpu \<and> 0 < p \<and> p \<le> Suc k then t ! 0 ! gpu + column_sum sc gpu p else t ! p ! c)"
    proof (cases "p = k + 1 \<and> c = gpu")
      case True
      have "set2 ?t (k + 1) gpu (sc ! k ! gpu + ?t ! k ! gpu) ! p ! c =
            t ! 0 ! gpu + column_sum sc gpu p"
        using inr prev True by (simp add: nth_set2 column_sum_def add.commute add.left_commute)
      with True show ?thesis unfolding step by simp
    next
      case False
      then have "set2 ?t (k + 1) gpu (sc ! k ! gpu + ?t ! k ! gpu) ! p ! c = ?t ! p ! c"
        using inr by (auto simp: nth_set2)
      moreover from IH(2) pc have "?t ! p ! c =
            (if c = gpu \<and> 0 < p \<and> p \<le> k then t ! 0 ! gpu + column_sum sc gpu p else t ! p ! c)"
        by blast
      moreover from False have "(c = gpu \<and> 0 < p \<and> p \<le> Suc k) = (c = gpu \<and> 0 < p \<and> p \<le> k)"
        by auto
      ultimately show ?thesis unfolding step by simp
    qed
  qed
  with sh show ?case by blast
qed

lemma outer_scan:
  assumes "m \<le> n"
  shows "shaped n (fold (\<lambda>gpu t. fold (trg_step sc gpu) [0 ..< n] t) [0 ..< m]
                     (replicate (n + 1) (replicate n 0))) \<and>
         (\<forall>p \<le> n. \<forall>c < n.
            fold (\<lambda>gpu t. fold (trg_step sc gpu) [0 ..< n] t) [0 ..< m]
                 (replicate (n + 1) (replicate n 0)) ! p ! c =
            (if c < m then column_sum sc c p else 0))"
  using assms
proof (induction m)
  case 0
  show ?case by (auto simp del: replicate.simps simp add: shaped_def less_Suc_eq_le)
next
  case (Suc m)
  let ?t = "fold (\<lambda>gpu t. fold (trg_step sc gpu) [0 ..< n] t) [0 ..< m]
                 (replicate (n + 1) (replicate n 0))"
  from Suc have IH: "shaped n ?t"
    "\<forall>p \<le> n. \<forall>c < n. ?t ! p ! c = (if c < m then column_sum sc c p else 0)"
    by simp_all
  from Suc.prems have m: "m < n" by simp
  from inner_scan [OF IH(1) m order_refl, of sc]
  have in1: "shaped n (fold (trg_step sc m) [0 ..< n] ?t)"
    and in2: "\<forall>p \<le> n. \<forall>c < n. fold (trg_step sc m) [0 ..< n] ?t ! p ! c =
            (if c = m \<and> 0 < p \<and> p \<le> n then ?t ! 0 ! m + column_sum sc m p else ?t ! p ! c)"
    by blast+
  have z: "?t ! 0 ! m = 0" using IH(2) m by simp
  have "\<forall>p \<le> n. \<forall>c < n. fold (trg_step sc m) [0 ..< n] ?t ! p ! c =
            (if c < Suc m then column_sum sc c p else 0)"
  proof (intro allI impI)
    fix p c assume pc: "p \<le> n" "c < n"
    show "fold (trg_step sc m) [0 ..< n] ?t ! p ! c = (if c < Suc m then column_sum sc c p else 0)"
    proof (cases "c = m")
      case True
      with in2 pc z IH(2) show ?thesis
        by (cases "p = 0") (simp_all add: column_sum_def)
    next
      case False
      with in2 pc IH(2) show ?thesis by (auto simp: less_Suc_eq)
    qed
  qed
  with in1 show ?case by simp
qed

lemma trg_displacements_nth:
  assumes "p \<le> n" "c < n"
  shows "compute_trg_displacements n sc ! p ! c = column_sum sc c p"
    and "length (compute_trg_displacements n sc) = n + 1"
    and "length (compute_trg_displacements n sc ! p) = n"
  using outer_scan [OF order_refl, of n sc] assms
  by (simp_all add: compute_trg_displacements_def shaped_def)

lemma unat_sum_list:
  "sum_list (map unat ws) < 2 ^ 64 \<Longrightarrow> unat (sum_list ws) = sum_list (map unat (ws :: size_t list))"
proof (induction ws)
  case Nil
  then show ?case by simp
next
  case (Cons w ws)
  then have IH: "unat (sum_list ws) = sum_list (map unat ws)" by simp
  from Cons.prems IH have "unat w + unat (sum_list ws) < 2 ^ LENGTH(64)" by simp
  then have "unat (w + sum_list ws) = unat w + unat (sum_list ws)"
    by (simp only: unat_add_lem [THEN iffD1])
  with IH show ?case by simp
qed

lemma sum_list_upt_sum: "sum_list (map f [0 ..< n]) = (\<Sum>i<n. f i)"
  by (simp add: interv_sum_list_conv_sum_set_nat atLeast0LessThan)

lemma sum_list_nth_sum: "sum_list xs = (\<Sum>i<length xs. xs ! i)"
  by (simp add: sum_list_sum_nth atLeast0LessThan)

text \<open>
  Claim C8. For an \<open>N \<times> N\<close> send-count table the source displacements are an
  \<open>N \<times> (N+1)\<close> table of row-wise prefix sums and the destination displacements an
  \<open>(N+1) \<times> N\<close> table of column-wise prefix sums, so that the last entry of a row
  (minus its first, which is 0) is the row sum and the last row holds the column sums;
  the sums are those of \<open>size_t\<close>, and the sums of the numbers whenever these stay
  below \<open>2^64\<close>.
\<close>

theorem displacement_tables:
  assumes "length sc = n" and "\<forall>counts \<in> set sc. length counts = n"
  shows "length (compute_src_displacements n sc) = n \<and>
         length (compute_trg_displacements n sc) = n + 1 \<and>
         (\<forall>s<n. length (compute_src_displacements n sc ! s) = n + 1 \<and>
            compute_src_displacements n sc ! s ! 0 = 0 \<and>
            (\<forall>d<n. compute_src_displacements n sc ! s ! (d + 1) =
                    compute_src_displacements n sc ! s ! d + sc ! s ! d) \<and>
            compute_src_displacements n sc ! s ! n - compute_src_displacements n sc ! s ! 0
              = (\<Sum>d<n. sc ! s ! d) \<and>
            ((\<Sum>d<n. unat (sc ! s ! d)) < 2 ^ 64 \<longrightarrow>
               unat (compute_src_displacements n sc ! s ! n) = (\<Sum>d<n. unat (sc ! s ! d)))) \<and>
         (\<forall>p\<le>n. length (compute_trg_displacements n sc ! p) = n) \<and>
         (\<forall>d<n. compute_trg_displacements n sc ! 0 ! d = 0 \<and>
            (\<forall>s<n. compute_trg_displacements n sc ! (s + 1) ! d =
                    sc ! s ! d + compute_trg_displacements n sc ! s ! d) \<and>
            compute_trg_displacements n sc ! n ! d = (\<Sum>s<n. sc ! s ! d) \<and>
            ((\<Sum>s<n. unat (sc ! s ! d)) < 2 ^ 64 \<longrightarrow>
               unat (compute_trg_displacements n sc ! n ! d) = (\<Sum>s<n. unat (sc ! s ! d))))"
proof (intro conjI allI impI)
  show "length (compute_src_displacements n sc) = n"
    by (simp add: compute_src_displacements_def)
  show "length (compute_trg_displacements n sc) = n + 1"
    using outer_scan [OF order_refl, of n sc]
    by (simp add: compute_trg_displacements_def shaped_def)
next
  fix s assume s: "s < n"
  with assms have len: "length (sc ! s) = n" by simp
  note nth = src_displacements_nth [OF s len]
  show "length (compute_src_displacements n sc ! s) = n + 1" by (rule nth(2) [of 0]) simp
  show z: "compute_src_displacements n sc ! s ! 0 = 0" by (simp add: nth(1))
  have total: "compute_src_displacements n sc ! s ! n = sum_list (sc ! s)"
    using len by (simp add: nth(1))
  have sl: "sum_list (sc ! s) = (\<Sum>d<n. sc ! s ! d)"
    using sum_list_nth_sum [of "sc ! s"] len by simp
  show "compute_src_displacements n sc ! s ! n - compute_src_displacements n sc ! s ! 0
              = (\<Sum>d<n. sc ! s ! d)"
    using total sl z by simp
  {
    assume small: "(\<Sum>d<n. unat (sc ! s ! d)) < 2 ^ 64"
    have "sum_list (map unat (sc ! s)) = (\<Sum>d<n. unat (sc ! s ! d))"
      using sum_list_nth_sum [of "map unat (sc ! s)"] len by simp
    with small unat_sum_list [of "sc ! s"] total
    show "unat (compute_src_displacements n sc ! s ! n) = (\<Sum>d<n. unat (sc ! s ! d))"
      by simp
  }
  fix d assume d: "d < n"
  then show "compute_src_displacements n sc ! s ! (d + 1) =
                    compute_src_displacements n sc ! s ! d + sc ! s ! d"
    using len by (simp add: nth(1) take_Suc_conv_app_nth)
next
  fix p assume "p \<le> n"
  then show "length (compute_trg_displacements n sc ! p) = n"
    using outer_scan [OF order_refl, of n sc]
    by (simp add: compute_trg_displacements_def shaped_def)
next
  fix d assume d: "d < n"
  show "compute_trg_displacements n sc ! 0 ! d = 0"
    using trg_displacements_nth(1) [of 0 n d sc] d by (simp add: column_sum_def)
  have total: "compute_trg_displacements n sc ! n ! d = column_sum sc d n"
    using trg_displacements_nth(1) [of n n d sc] d by simp
  show "compute_trg_displacements n sc ! n ! d = (\<Sum>s<n. sc ! s ! d)"
    using total by (simp add: column_sum_def sum_list_upt_sum)
  {
    assume small: "(\<Sum>s<n. unat (sc ! s ! d)) < 2 ^ 64"
    have "sum_list (map unat (map (\<lambda>part. sc ! part ! d) [0 ..< n])) = (\<Sum>s<n. unat (sc ! s ! d))"
      using sum_list_upt_sum [of "\<lambda>s. unat (sc ! s ! d)" n] by (simp add: comp_def)
    with small unat_sum_list [of "map (\<lambda>part. sc ! part ! d) [0 ..< n]"] total
    show "unat (compute_trg_displacements n sc ! n ! d) = (\<Sum>s<n. unat (sc ! s ! d))"
      by (simp add: column_sum_def)
  }
  fix s assume s: "s < n"
  then show "compute_trg_displacements n sc ! (s + 1) ! d =
                    sc ! s ! d + compute_trg_displacements n sc ! s ! d"
    using trg_displacements_nth(1) [of "s + 1" n d sc] trg_displacements_nth(1) [of s n d sc] d
    by (simp add: column_sum_def add.commute)
qed

lemma demo_table: "length scenario_a = 2" "\<forall>counts \<in> set scenario_a. length counts = 2"
  by (simp_all add: scenario_a_def)

theorem displacement_tables_witness:
  "length scenario_a = 2 \<and> compute_src_displacements 2 scenario_a = [[0, 10, 15], [0, 3, 10]] \<and>
   compute_trg_displacements 2 scenario_a = [[0, 0], [10, 5], [13, 12]] \<and>
   compute_src_displacements 2 scenario_a ! 1 ! 2 - compute_src_displacements 2 scenario_a ! 1 ! 0
     = (\<Sum>d<2. scenario_a ! 1 ! d) \<and>
   compute_trg_displacements 2 scenario_a ! 2 ! 1 = (\<Sum>s<2. scenario_a ! s ! 1)"
proof -
  have v: "compute_src_displacements 2 scenario_a = [[0, 10, 15], [0, 3, 10]]"
    "compute_trg_displacements 2 scenario_a = [[0, 0], [10, 5], [13, 12]]"
    by code_simp+
  from displacement_tables [OF demo_table] have
    "\<forall>s<2. compute_src_displacements 2 scenario_a ! s ! 2 - compute_src_displacements 2 scenario_a ! s ! 0
     = (\<Sum>d<2. scenario_a ! s ! d)"
    "\<forall>d<2. compute_trg_displacements 2 scenario_a ! 2 ! d = (\<Sum>s<2. scenario_a ! s ! d)"
    by blast+
  then have
    "compute_src_displacements 2 scenario_a ! 1 ! 2 - compute_src_displacements 2 scenario_a ! 1 ! 0
     = (\<Sum>d<2. scenario_a ! 1 ! d)"
    "compute_trg_displacements 2 scenario_a ! 2 ! 1 = (\<Sum>s<2. scenario_a ! s ! 1)"
    by (metis one_less_numeral_iff semiring_norm(76))+
  with v demo_table(1) show ?thesis by simp
qed

section \<open>Lengths and cursors as numbers\<close>

lemma ceil_div: 
  fixes a c :: nat assumes c: "0 < c"
  shows "(a + (c - 1)) div c = nat \<lceil>real a / real c\<rceil>"
proof -
  define k where "k = (a + (c - 1)) div c"
  have lo: "k * c \<le> a + (c - 1)" unfolding k_def by simp
  have hi: "a + (c - 1) < (k + 1) * c"
    unfolding k_def using c by (metis Suc_eq_plus1 dividend_less_div_times add.commute mult.commute mult_Suc)
  from hi c have up: "a \<le> k * c" by simp
  from lo c have low: "k * c < a + c" by linarith
  have "\<lceil>real a / real c\<rceil> = int k"
  proof (rule ceiling_unique)
    have "real (k * c) < real (a + c)" using low by (simp only: of_nat_less_iff)
    then have "real k * real c - real c < real a" by simp
    then have "(real k - 1) * real c < real a" by (simp add: algebra_simps)
    then show "of_int (int k) - 1 < real a / real c"
      using c by (simp add: pos_less_divide_eq)
    have "real a \<le> real (k * c)" using up by (simp only: of_nat_le_iff)
    then show "real a / real c \<le> of_int (int k)"
      using c by (simp add: pos_divide_le_eq)
  qed
  then show ?thesis by (simp add: k_def)
qed

lemma ceil_le:
  fixes a c :: nat assumes c: "0 < c"
  shows "(a + (c - 1)) div c \<le> a"
proof (cases "a = 0")
  case True
  with c show ?thesis by simp
next
  case False
  then have "a + (c - 1) < (a + 1) * c"
    using c by (cases c) (simp_all add: algebra_simps)
  then have "(a + (c - 1)) div c < a + 1"
    using c by (simp add: less_mult_imp_div_less)
  then show ?thesis by simp
qed

lemma unat_SDIV:
  assumes "y \<noteq> 0"
  shows "unat (SDIV x y) = (unat x + (unat y - 1)) div unat y"
proof -
  from assms have y: "0 < unat y" by (simp add: unat_gt_0)
  have "(unat x + (unat y - 1)) div unat y \<le> unat x" using y by (rule ceil_le)
  also have "unat x < 2 ^ LENGTH(64)" by (rule unsigned_less)
  finally show ?thesis by (simp add: SDIV_def unat_of_nat)
qed

lemma ceil_covers:
  fixes a c :: nat assumes c: "0 < c"
  shows "a \<le> ((a + (c - 1)) div c) * c"
proof -
  have "a + (c - 1) < ((a + (c - 1)) div c + 1) * c"
    using c by (metis Suc_eq_plus1 dividend_less_div_times add.commute mult.commute mult_Suc)
  with c show ?thesis by simp
qed

lemma resolve_numeric:
  assumes r: "resolve h sq r = Some (so, to, ts)"
    and sz: "at2 (sizes h) (hd sq) (last sq) = Some sz"
    and dp: "at2 (src_displacements h) (hd sq) (last sq) = Some dp"
    and inv: "unat so \<le> unat dp + unat sz"
    and fit: "unat dp + unat sz + nominal sz (num_chunks h) r < 2 ^ 64"
  shows "unat ts = min (nominal sz (num_chunks h) r) (unat dp + unat sz - unat so)"
    and "unat (so + ts) = unat so + unat ts"
    and "unat so + unat ts = min (unat so + nominal sz (num_chunks h) r) (unat dp + unat sz)"
proof -
  let ?C = "num_chunks h"
  let ?nom = "nominal sz ?C r"
  note rs = resolve_Some [OF r]
  from rs(4) sz dp have ts: "ts = (if so + SDIV sz ?C * r > dp + sz then dp + sz - so
                 else SDIV sz ?C * r)" by simp
  have sdiv: "unat (SDIV sz ?C) = (unat sz + (unat ?C - 1)) div unat ?C"
    using rs(3) by (rule unat_SDIV)
  have "unat (SDIV sz ?C) * unat r < 2 ^ LENGTH(64)"
    using fit by (simp add: sdiv nominal_def)
  then have mul: "unat (SDIV sz ?C * r) = ?nom"
    by (simp add: unat_mult_lem [THEN iffD1] sdiv nominal_def)
  have "unat dp + unat sz < 2 ^ LENGTH(64)" using fit by simp
  then have lim: "unat (dp + sz) = unat dp + unat sz"
    by (simp only: unat_add_lem [THEN iffD1])
  have "unat so + unat (SDIV sz ?C * r) < 2 ^ LENGTH(64)"
    using fit inv by (simp add: mul)
  then have sum: "unat (so + SDIV sz ?C * r) = unat so + ?nom"
    by (simp add: unat_add_lem [THEN iffD1] mul)
  have cmp: "so + SDIV sz ?C * r > dp + sz \<longleftrightarrow> unat so + ?nom > unat dp + unat sz"
    by (simp add: word_less_nat_alt lim sum)
  have "so \<le> dp + sz" using inv by (simp add: word_le_nat_alt lim)
  then have sub: "unat (dp + sz - so) = unat dp + unat sz - unat so"
    by (simp add: unat_sub lim)
  show 1: "unat ts = min ?nom (unat dp + unat sz - unat so)"
    using inv by (auto simp: ts cmp sub mul min_def)
  have "unat so + unat ts < 2 ^ LENGTH(64)" using 1 inv fit by (simp add: min_def split: if_splits)
  then show "unat (so + ts) = unat so + unat ts"
    by (simp only: unat_add_lem [THEN iffD1])
  show "unat so + unat ts = min (unat so + ?nom) (unat dp + unat sz)"
    using 1 inv by (simp add: min_def split: if_splits)
qed

lemma fitsD:
  "fits displ szs C c \<Longrightarrow> at2 displ (hd (seq c)) (last (seq c)) = Some dp \<Longrightarrow>
   at2 szs (hd (seq c)) (last (seq c)) = Some sz \<Longrightarrow>
   unat dp + unat sz + nominal sz C (seq_size c) < 2 ^ 64"
  by (simp add: fits_def)

lemma run_frame:
  assumes "run h calls = Some h'"
  shows "sizes h' = sizes h" "src_displacements h' = src_displacements h"
    "num_phases h' = num_phases h" "num_chunks h' = num_chunks h"
  using assms
proof (induction calls arbitrary: h)
  case Nil
  { case 1 then show ?case by simp }
  { case 2 then show ?case by simp }
  { case 3 then show ?case by simp }
  { case 4 then show ?case by simp }
next
  case (Cons c cs)
  { case 1
    then obtain ok h1 where st: "add_transfer h (seq c) (seq_size c) = Some (ok, h1)"
      and rest: "run h1 cs = Some h'" by (auto split: Option.bind_splits)
    from Cons.IH(1) [OF rest] add_transfer_frame(1) [OF st] show ?case by simp }
  { case 2
    then obtain ok h1 where st: "add_transfer h (seq c) (seq_size c) = Some (ok, h1)"
      and rest: "run h1 cs = Some h'" by (auto split: Option.bind_splits)
    from Cons.IH(2) [OF rest] add_transfer_frame(2) [OF st] show ?case by simp }
  { case 3
    then obtain ok h1 where st: "add_transfer h (seq c) (seq_size c) = Some (ok, h1)"
      and rest: "run h1 cs = Some h'" by (auto split: Option.bind_splits)
    from Cons.IH(3) [OF rest] add_transfer_frame(3) [OF st] show ?case by simp }
  { case 4
    then obtain ok h1 where st: "add_transfer h (seq c) (seq_size c) = Some (ok, h1)"
      and rest: "run h1 cs = Some h'" by (auto split: Option.bind_splits)
    from Cons.IH(4) [OF rest] add_transfer_frame(4) [OF st] show ?case by simp }
qed

text \<open>One successful call, seen from a pair \<open>(s, d)\<close>.\<close>

lemma add_transfer_cursor_step:
  assumes st: "add_transfer h (seq c) (seq_size c) = Some (True, h')"
    and fit: "fits (src_displacements h) (sizes h) (num_chunks h) c"
    and so: "at2 (src_offsets h) s d = Some so"
    and dp: "at2 (src_displacements h) s d = Some dp"
    and sz: "at2 (sizes h) s d = Some sz"
    and inv: "unat so \<le> unat dp + unat sz"
  shows "\<exists>so'. at2 (src_offsets h') s d = Some so' \<and>
           unat so' = min (unat so + (if names s d c then nominal sz (num_chunks h) (seq_size c) else 0))
                          (unat dp + unat sz)"
proof -
  from st obtain so0 to ts phs po where
    r: "resolve h (seq c) (seq_size c) = Some (so0, to, ts)" and
    h': "h' = h \<lparr> src_offsets := set2 (src_offsets h) (hd (seq c)) (last (seq c)) (so0 + ts),
               phases_offsets := po,
               trg_offsets := set2 (trg_offsets h) (hd (seq c)) (last (seq c)) (to + ts),
               phases := phs \<rparr>"
    by (rule add_transfer_True)
  note rs = resolve_Some [OF r]
  show ?thesis
  proof (cases "names s d c")
    case True
    then have fb: "hd (seq c) = s" "last (seq c) = d" by (simp_all add: names_def)
    with rs(1) so have eq: "so0 = so" by simp
    from fitsD [OF fit] fb dp sz
    have f: "unat dp + unat sz + nominal sz (num_chunks h) (seq_size c) < 2 ^ 64" by simp
    from resolve_numeric(2,3) [OF r [unfolded eq] _ _ inv f] fb dp sz
    have n: "unat (so + ts) = unat so + unat ts"
      "unat so + unat ts = min (unat so + nominal sz (num_chunks h) (seq_size c)) (unat dp + unat sz)"
      by simp_all
    have "at2 (src_offsets h') s d = Some (so + ts)"
      using so h' fb eq by (simp add: at2_set2 at2_Some)
    with n True show ?thesis by simp
  next
    case False
    then have "at2 (src_offsets h') s d = Some so"
      using so h' by (auto simp: at2_set2 names_def)
    with False inv show ?thesis by simp
  qed
qed

lemma run_cursor:
  assumes "run h calls = Some h'"
    and "\<forall>c \<in> set calls. length (seq c) = num_phases h + 1"
    and "\<forall>c \<in> set calls. fits (src_displacements h) (sizes h) (num_chunks h) c"
    and "at2 (src_offsets h) s d = Some so"
    and "at2 (src_displacements h) s d = Some dp"
    and "at2 (sizes h) s d = Some sz"
    and "unat so \<le> unat dp + unat sz"
  shows "\<exists>so'. at2 (src_offsets h') s d = Some so' \<and>
           unat so' = min (unat so + requested sz (num_chunks h) s d calls) (unat dp + unat sz)"
  using assms
proof (induction calls arbitrary: h so)
  case Nil
  then show ?case by (simp add: requested_def)
next
  case (Cons c cs)
  from Cons.prems(1) obtain ok h1 where
    st: "add_transfer h (seq c) (seq_size c) = Some (ok, h1)" and rest: "run h1 cs = Some h'"
    by (auto split: Option.bind_splits)
  from Cons.prems(2) st have ok: "ok" by (cases ok) (simp_all add: add_transfer_False)
  note fr = add_transfer_frame [OF st]
  from Cons.prems(3) have fc: "fits (src_displacements h) (sizes h) (num_chunks h) c" by simp
  from add_transfer_cursor_step [OF st [unfolded ok [THEN eqTrueI]] fc Cons.prems(4,5,6,7)]
  obtain so1 where so1: "at2 (src_offsets h1) s d = Some so1"
    "unat so1 = min (unat so + (if names s d c then nominal sz (num_chunks h) (seq_size c) else 0))
                          (unat dp + unat sz)" by blast
  have inv1: "unat so1 \<le> unat dp + unat sz" using so1(2) by simp
  from Cons.IH [OF rest _ _ so1(1) _ _ inv1] Cons.prems(2,3,5,6) fr
  obtain so' where so': "at2 (src_offsets h') s d = Some so'"
    "unat so' = min (unat so1 + requested sz (num_chunks h) s d cs) (unat dp + unat sz)"
    by auto
  have "requested sz (num_chunks h) s d (c # cs) =
        (if names s d c then nominal sz (num_chunks h) (seq_size c) else 0) +
        requested sz (num_chunks h) s d cs"
    by (simp add: requested_def)
  with so'(2) so1(2) have "unat so' = min (unat so + requested sz (num_chunks h) s d (c # cs))
                           (unat dp + unat sz)"
    by (simp add: min_def)
  with so'(1) show ?case by blast
qed

lemma run_filter:
  "run h calls = Some h' \<Longrightarrow>
   run h (filter (\<lambda>c. length (seq c) = num_phases h + 1) calls) = Some h'"
proof (induction calls arbitrary: h)
  case Nil
  then show ?case by simp
next
  case (Cons c cs)
  from Cons.prems obtain ok h1 where
    st: "add_transfer h (seq c) (seq_size c) = Some (ok, h1)" and rest: "run h1 cs = Some h'"
    by (auto split: Option.bind_splits)
  note fr = add_transfer_frame(3) [OF st]
  from Cons.IH [OF rest] fr
  have IH: "run h1 (filter (\<lambda>c. length (seq c) = num_phases h + 1) cs) = Some h'" by simp
  show ?case
  proof (cases "length (seq c) = num_phases h + 1")
    case True
    with IH st show ?thesis by simp
  next
    case False
    with st have "h1 = h" by (cases ok) (auto simp: add_transfer_False elim: add_transfer_True)
    with IH False show ?thesis by simp
  qed
qed

lemma nominal_ceiling:
  "C \<noteq> 0 \<Longrightarrow> nominal sz C r = nat \<lceil>real (unat sz) / real (unat C)\<rceil> * unat r"
proof -
  assume "C \<noteq> 0"
  then have "0 < unat C" by (simp add: unat_gt_0)
  from ceil_div [OF this, of "unat sz"] show ?thesis
    unfolding nominal_def by (simp only:)
qed

lemma add_transfer_phases:
  assumes st: "add_transfer h sq r = Some (True, h')" and r: "resolve h sq r = Some (so, to, ts)"
    and p: "p < num_phases h"
  shows "phases h' ! p = phases h ! p @ [nth_transfer h sq so to ts p]"
proof -
  from st r obtain phs po where e: "emit h sq so to ts = Some phs"
    and h': "h' = h \<lparr> src_offsets := set2 (src_offsets h) (hd sq) (last sq) (so + ts),
               phases_offsets := po,
               trg_offsets := set2 (trg_offsets h) (hd sq) (last sq) (to + ts),
               phases := phs \<rparr>"
    by (auto elim: add_transfer_True)
  from emit_phases [OF e] p have "p < length (phases h)" by simp
  from emit_nth [OF e this] p h' show ?thesis by simp
qed

text \<open>
  Claim C3. On a handler reached from a fresh one by calls that fit, a call with a hop
  sequence of length \<open>P + 1\<close> that fits returns true; its nominal length is
  \<open>ceil(sizes[front][back] / C) * r\<close>; the length of every descriptor it emits is the
  nominal length clamped to the remaining capacity \<open>limit - cursor\<close>, which it equals
  exactly when the nominal length would overshoot; and the source cursor, before and
  after the call, does not exceed \<open>limit = src_displacements[front][back] +
  sizes[front][back]\<close>.
\<close>

theorem clamped_transfer_length:
  assumes run: "run (transfer_handler n displ tdispl szs P C) calls = Some h"
    and fit: "\<forall>c \<in> set calls. fits displ szs C c"
    and fitc: "fits displ szs C \<lparr>seq = sq, seq_size = r\<rparr>"
    and call: "add_transfer h sq r = Some (ok, h')"
    and len: "length sq = P + 1"
  shows "ok \<and>
    (\<exists>sz dp so to ts.
       at2 szs (hd sq) (last sq) = Some sz \<and> at2 displ (hd sq) (last sq) = Some dp \<and>
       at2 (src_offsets h) (hd sq) (last sq) = Some so \<and>
       resolve h sq r = Some (so, to, ts) \<and>
       nominal sz C r = nat \<lceil>real (unat sz) / real (unat C)\<rceil> * unat r \<and>
       unat so \<le> unat dp + unat sz \<and>
       unat ts = min (nominal sz C r) (unat dp + unat sz - unat so) \<and>
       (unat dp + unat sz < unat so + nominal sz C r \<longrightarrow> unat ts = unat dp + unat sz - unat so) \<and>
       (unat so + nominal sz C r \<le> unat dp + unat sz \<longrightarrow> unat ts = nominal sz C r) \<and>
       (\<forall>p<P. \<exists>t. phases h' ! p = phases h ! p @ [t] \<and> len t = ts) \<and>
       at2 (src_offsets h') (hd sq) (last sq) = Some (so + ts) \<and>
       unat (so + ts) = unat so + unat ts \<and>
       unat (so + ts) \<le> unat dp + unat sz)"
proof -
  let ?h0 = "transfer_handler n displ tdispl szs P C"
  have h0: "sizes ?h0 = szs" "src_displacements ?h0 = displ" "num_phases ?h0 = P"
    "num_chunks ?h0 = C" "src_offsets ?h0 = displ"
    by (simp_all add: transfer_handler_def)
  note fr = run_frame [OF run, unfolded h0]
  from call len fr(3) have ok: "ok" by (cases ok) (simp_all add: add_transfer_False)
  with call have call': "add_transfer h sq r = Some (True, h')" by simp
  then obtain so to ts phs po where r: "resolve h sq r = Some (so, to, ts)"
    and h': "h' = h \<lparr> src_offsets := set2 (src_offsets h) (hd sq) (last sq) (so + ts),
               phases_offsets := po,
               trg_offsets := set2 (trg_offsets h) (hd sq) (last sq) (to + ts),
               phases := phs \<rparr>"
    by (rule add_transfer_True)
  note rs = resolve_Some [OF r]
  from rs(4) fr obtain sz dp where sz: "at2 szs (hd sq) (last sq) = Some sz"
    and dp: "at2 displ (hd sq) (last sq) = Some dp" by auto
  let ?calls = "filter (\<lambda>c. length (seq c) = P + 1) calls"
  from run_filter [OF run] h0 have run': "run ?h0 ?calls = Some h" by simp
  have inv0: "unat dp \<le> unat dp + unat sz" by simp
  from run_cursor [OF run', of "hd sq" "last sq" dp dp sz] h0 fit dp sz
  obtain so' where "at2 (src_offsets h) (hd sq) (last sq) = Some so'"
    "unat so' = min (unat dp + requested sz C (hd sq) (last sq) ?calls) (unat dp + unat sz)"
    by auto
  with rs(1) have inv: "unat so \<le> unat dp + unat sz" by simp
  from fitsD [OF fitc] dp sz have f: "unat dp + unat sz + nominal sz C r < 2 ^ 64" by simp
  from resolve_numeric [OF r, of sz dp] sz dp inv f fr
  have num: "unat ts = min (nominal sz C r) (unat dp + unat sz - unat so)"
    "unat (so + ts) = unat so + unat ts"
    "unat so + unat ts = min (unat so + nominal sz C r) (unat dp + unat sz)"
    by simp_all
  from rs(3) fr have C: "C \<noteq> 0" by simp
  have ph: "\<forall>p<P. \<exists>t. phases h' ! p = phases h ! p @ [t] \<and> len t = ts"
  proof (intro allI impI)
    fix p assume "p < P"
    with fr have "p < num_phases h" by simp
    from add_transfer_phases [OF call' r this]
    show "\<exists>t. phases h' ! p = phases h ! p @ [t] \<and> len t = ts"
      by (auto simp: nth_transfer_def)
  qed
  have cur: "at2 (src_offsets h') (hd sq) (last sq) = Some (so + ts)"
    using rs(1) h' by (simp add: at2_set2 at2_Some)
  have "unat (so + ts) \<le> unat dp + unat sz" using num by simp
  moreover have "unat dp + unat sz < unat so + nominal sz C r \<longrightarrow> unat ts = unat dp + unat sz - unat so"
    using num(1) inv by (auto simp: min_def)
  moreover have "unat so + nominal sz C r \<le> unat dp + unat sz \<longrightarrow> unat ts = nominal sz C r"
    using num(1) inv by (auto simp: min_def)
  ultimately show ?thesis
    using ok sz dp rs(1) r nominal_ceiling [OF C, of sz r] inv num(1,2) ph cur by blast
qed

lemma demo_prefix:
  "map_option (\<lambda>h. (at2 (src_offsets h) 0 1, map_option fst (add_transfer h [0,2,1,1] 3)))
     (run demo_handler [\<lparr>seq = [0,2,1,1], seq_size = 1\<rparr>]) = Some (Some 13, Some True)"
  by code_simp

lemma demo_fits:
  "\<forall>c \<in> set [\<lparr>seq = [0,2,1,1], seq_size = 1\<rparr>].
      fits [[0,10,15,18],[0,3,10,11],[0,2,4,6]] [[10,5,3],[3,7,1],[2,2,2]] 2 c"
  "fits [[0,10,15,18],[0,3,10,11],[0,2,4,6]] [[10,5,3],[3,7,1],[2,2,2]] 2 \<lparr>seq = [0,2,1,1], seq_size = 3\<rparr>"
  by (simp_all add: fits_def at2_def nominal_def)

lemma demo_pair:
  "at2 [[10,5,3],[3,7,1],[2,2,2]] (hd [0,2,1,1]) (last [0,2,1,1]) = Some (5 :: size_t)"
  "at2 [[0,10,15,18],[0,3,10,11],[0,2,4,6]] (hd [0,2,1,1]) (last [0,2,1,1]) = Some (10 :: size_t)"
  "nominal 5 2 3 = 9"
  by (simp_all add: at2_def nominal_def)

theorem clamped_transfer_length_witness:
  "\<exists>h h'. run demo_handler [\<lparr>seq = [0,2,1,1], seq_size = 1\<rparr>] = Some h \<and>
     (\<forall>c \<in> set [\<lparr>seq = [0,2,1,1], seq_size = 1\<rparr>].
        fits [[0,10,15,18],[0,3,10,11],[0,2,4,6]] [[10,5,3],[3,7,1],[2,2,2]] 2 c) \<and>
     fits [[0,10,15,18],[0,3,10,11],[0,2,4,6]] [[10,5,3],[3,7,1],[2,2,2]] 2
        \<lparr>seq = [0,2,1,1], seq_size = 3\<rparr> \<and>
     add_transfer h [0,2,1,1] 3 = Some (True, h') \<and> length [0,2,1,1 :: gpu_id_t] = 3 + 1 \<and>
     (\<exists>so to ts. resolve h [0,2,1,1] 3 = Some (so, to, ts) \<and> unat so = 13 \<and>
        nominal 5 2 3 = 9 \<and> unat ts = 2 \<and>
        (\<forall>p<3. \<exists>t. phases h' ! p = phases h ! p @ [t] \<and> len t = ts) \<and>
        at2 (src_offsets h') 0 1 = Some (so + ts) \<and> unat (so + ts) = 15)"
proof -
  from demo_prefix obtain h h' where
    run: "run demo_handler [\<lparr>seq = [0,2,1,1], seq_size = 1\<rparr>] = Some h" and
    so: "at2 (src_offsets h) 0 1 = Some 13" and
    call: "add_transfer h [0,2,1,1] 3 = Some (True, h')"
    by (cases "run demo_handler [\<lparr>seq = [0,2,1,1], seq_size = 1\<rparr>]") auto
  have len: "length [0,2,1,1 :: gpu_id_t] = 3 + 1" by simp
  from clamped_transfer_length [OF run [unfolded demo_handler_def] demo_fits call len]
  obtain sz dp so' to ts where c:
    "at2 [[10,5,3],[3,7,1],[2,2,2]] (hd [0,2,1,1]) (last [0,2,1,1]) = Some sz"
    "at2 [[0,10,15,18],[0,3,10,11],[0,2,4,6]] (hd [0,2,1,1]) (last [0,2,1,1]) = Some (dp :: size_t)"
    "at2 (src_offsets h) (hd [0,2,1,1]) (last [0,2,1,1]) = Some so'"
    "resolve h [0,2,1,1] 3 = Some (so', to, ts)"
    "unat ts = min (nominal sz 2 3) (unat dp + unat sz - unat so')"
    "\<forall>p<3. \<exists>t. phases h' ! p = phases h ! p @ [t] \<and> len t = ts"
    "at2 (src_offsets h') (hd [0,2,1,1]) (last [0,2,1,1]) = Some (so' + ts)"
    "unat (so' + ts) = unat so' + unat ts"
    apply (elim conjE exE)
    apply (rule that)
           apply assumption+
    done
  from c(1,2) demo_pair(1,2) have v: "sz = 5" "dp = 10" by simp_all
  have hl: "hd [0,2,1,1 :: gpu_id_t] = 0" "last [0,2,1,1 :: gpu_id_t] = 1" by simp_all
  from c(3) so have s: "so' = 13" by (simp only: hl option.inject)
  have u: "unat (13 :: size_t) = 13" "unat (10 :: size_t) = 10" "unat (5 :: size_t) = 5" by simp_all
  from c(5) have ts: "unat ts = 2" by (simp add: v s demo_pair(3))
  have so13: "unat so' = 13" by (simp only: s u)
  from c(8) have fin: "unat (so' + ts) = 15" by (simp add: so13 ts)
  from c(7) have cur: "at2 (src_offsets h') 0 1 = Some (so' + ts)" by (simp only: hl)
  have "\<exists>so to ts. resolve h [0,2,1,1] 3 = Some (so, to, ts) \<and> unat so = 13 \<and>
        nominal 5 2 3 = 9 \<and> unat ts = 2 \<and>
        (\<forall>p<3. \<exists>t. phases h' ! p = phases h ! p @ [t] \<and> len t = ts) \<and>
        at2 (src_offsets h') 0 1 = Some (so + ts) \<and> unat (so + ts) = 15"
    using c(4) so13 demo_pair(3) ts c(6) cur fin by blast
  with run demo_fits call len show ?thesis by blast
qed

section \<open>Whole runs: tiling and flow conservation\<close>

lemma run_append:
  "run h (xs @ ys) = Option.bind (run h xs) (\<lambda>h'. run h' ys)"
proof (induction xs arbitrary: h)
  case Nil
  then show ?case by simp
next
  case (Cons c cs)
  then show ?case
    by (cases "add_transfer h (seq c) (seq_size c)") (auto split: prod.splits)
qed

lemma run_phases:
  assumes "run h calls = Some h'"
    and "\<forall>c \<in> set calls. length (seq c) = num_phases h + 1"
    and "q < num_phases h"
  shows "\<exists>ds. phases h' ! q = phases h ! q @ ds \<and> length ds = length calls"
  using assms
proof (induction calls arbitrary: h)
  case Nil
  then show ?case by simp
next
  case (Cons c cs)
  from Cons.prems(1) obtain ok h1 where
    st: "add_transfer h (seq c) (seq_size c) = Some (ok, h1)" and rest: "run h1 cs = Some h'"
    by (auto split: Option.bind_splits)
  from Cons.prems(2) st have ok: "ok" by (cases ok) (simp_all add: add_transfer_False)
  with st have st': "add_transfer h (seq c) (seq_size c) = Some (True, h1)" by simp
  then obtain so to ts where r: "resolve h (seq c) (seq_size c) = Some (so, to, ts)"
    by (auto elim: add_transfer_True)
  note fr = add_transfer_frame(3) [OF st]
  from add_transfer_phases [OF st' r Cons.prems(3)]
  have 1: "phases h1 ! q = phases h ! q @ [nth_transfer h (seq c) so to ts q]" .
  from Cons.IH [OF rest] Cons.prems(2,3) fr
  obtain ds where "phases h' ! q = phases h1 ! q @ ds" "length ds = length cs" by auto
  with 1 show ?case
    by (intro exI [of _ "nth_transfer h (seq c) so to ts q # ds"]) simp
qed

lemma run_descriptor:
  assumes run: "run h0 calls = Some h"
    and oks: "\<forall>c \<in> set calls. length (seq c) = num_phases h0 + 1"
    and i: "i < length calls"
  shows "\<exists>hi so to ts. run h0 (take i calls) = Some hi \<and>
           resolve hi (seq (calls ! i)) (seq_size (calls ! i)) = Some (so, to, ts) \<and>
           (\<forall>q < num_phases h0.
              phases h ! q ! (length (phases h0 ! q) + i) = nth_transfer hi (seq (calls ! i)) so to ts q \<and>
              length (phases h ! q) = length (phases h0 ! q) + length calls)"
proof -
  let ?c = "calls ! i"
  have split: "calls = take i calls @ ?c # drop (Suc i) calls"
    using i by (simp add: id_take_nth_drop)
  from run have "run h0 (take i calls @ ?c # drop (Suc i) calls) = Some h"
    using split by simp
  then obtain hi ok hi' where
    a: "run h0 (take i calls) = Some hi" and
    b: "add_transfer hi (seq ?c) (seq_size ?c) = Some (ok, hi')" and
    c: "run hi' (drop (Suc i) calls) = Some h"
    by (auto simp: run_append split: Option.bind_splits)
  note fa = run_frame(3) [OF a]
  note fb = add_transfer_frame(3) [OF b]
  from oks i have li: "length (seq ?c) = num_phases h0 + 1" by simp
  with b fa have ok: "ok" by (cases ok) (simp_all add: add_transfer_False)
  with b have b': "add_transfer hi (seq ?c) (seq_size ?c) = Some (True, hi')" by simp
  then obtain so to ts where r: "resolve hi (seq ?c) (seq_size ?c) = Some (so, to, ts)"
    by (auto elim: add_transfer_True)
  have oa: "\<forall>c \<in> set (take i calls). length (seq c) = num_phases h0 + 1"
    using oks by (auto dest: in_set_takeD)
  have oc: "\<forall>c \<in> set (drop (Suc i) calls). length (seq c) = num_phases hi' + 1"
    using oks fa fb by (auto dest: in_set_dropD)
  have "\<forall>q < num_phases h0.
              phases h ! q ! (length (phases h0 ! q) + i) = nth_transfer hi (seq ?c) so to ts q \<and>
              length (phases h ! q) = length (phases h0 ! q) + length calls"
  proof (intro allI impI)
    fix q assume q: "q < num_phases h0"
    from run_phases [OF a oa q] obtain ds1 where
      1: "phases hi ! q = phases h0 ! q @ ds1" "length ds1 = length (take i calls)" by blast
    from add_transfer_phases [OF b' r] q fa
    have 2: "phases hi' ! q = phases hi ! q @ [nth_transfer hi (seq ?c) so to ts q]" by simp
    from run_phases [OF c oc] q fa fb obtain ds2 where
      3: "phases h ! q = phases hi' ! q @ ds2" "length ds2 = length (drop (Suc i) calls)" by auto
    from 1 2 3 i have
      "phases h ! q = phases h0 ! q @ ds1 @ nth_transfer hi (seq ?c) so to ts q # ds2"
      "length ds1 = i" by simp_all
    then show "phases h ! q ! (length (phases h0 ! q) + i) = nth_transfer hi (seq ?c) so to ts q \<and>
              length (phases h ! q) = length (phases h0 ! q) + length calls"
      using 3(2) i by (simp add: nth_append)
  qed
  with a r show ?thesis by blast
qed

lemma requested_take_Suc:
  "i < length calls \<Longrightarrow>
   requested sz C s d (take (Suc i) calls) =
     requested sz C s d (take i calls) +
     (if names s d (calls ! i) then nominal sz C (seq_size (calls ! i)) else 0)"
  by (simp add: requested_def take_Suc_conv_app_nth)

lemma requested_mono:
  "i \<le> j \<Longrightarrow> requested sz C s d (take i calls) \<le> requested sz C s d (take j calls)"
proof -
  assume "i \<le> j"
  then have "take j calls = take i calls @ take (j - i) (drop i calls)"
    by (metis le_add_diff_inverse take_add)
  then show ?thesis by (simp add: requested_def)
qed

lemma reach_mono: "x \<le> y \<Longrightarrow> reach dp sz x \<le> reach dp sz y"
  by (simp add: reach_def min_def)

lemma requested_covers:
  assumes C: "C \<noteq> 0"
    and enough: "unat C \<le> sum_list (map (\<lambda>c. unat (seq_size c)) (filter (names s d) calls))"
  shows "unat sz \<le> requested sz C s d calls"
proof -
  let ?k = "(unat sz + (unat C - 1)) div unat C"
  from C have c: "0 < unat C" by (simp add: unat_gt_0)
  have "requested sz C s d calls =
        ?k * sum_list (map (\<lambda>c. unat (seq_size c)) (filter (names s d) calls))"
    by (simp add: requested_def nominal_def sum_list_const_mult)
  moreover have "?k * unat C \<le> ?k * sum_list (map (\<lambda>c. unat (seq_size c)) (filter (names s d) calls))"
    using enough by (rule mult_le_mono2)
  moreover have "unat sz \<le> ?k * unat C" using c by (rule ceil_covers)
  ultimately show ?thesis by linarith
qed

lemma fresh_descriptor:
  assumes run: "run (transfer_handler n displ tdispl szs P C) calls = Some h"
    and oks: "\<forall>c \<in> set calls. length (seq c) = P + 1"
    and fit: "\<forall>c \<in> set calls. fits displ szs C c"
    and i: "i < length calls"
    and dp: "at2 displ s d = Some dp" and sz: "at2 szs s d = Some sz"
    and nm: "names s d (calls ! i)"
  shows "\<exists>hi so to ts.
           (\<forall>q<P. phases h ! q ! i = nth_transfer hi (seq (calls ! i)) so to ts q \<and>
                   length (phases h ! q) = length calls) \<and>
           num_phases hi = P \<and>
           unat so = reach dp sz (requested sz C s d (take i calls)) \<and>
           unat so + unat ts = reach dp sz (requested sz C s d (take (Suc i) calls))"
proof -
  let ?h0 = "transfer_handler n displ tdispl szs P C"
  let ?c = "calls ! i"
  have h0: "sizes ?h0 = szs" "src_displacements ?h0 = displ" "num_phases ?h0 = P"
    "num_chunks ?h0 = C" "src_offsets ?h0 = displ"
    by (simp_all add: transfer_handler_def)
  have ph0: "\<forall>q<P. phases ?h0 ! q = []" by (simp add: transfer_handler_def)
  from run_descriptor [OF run _ i] oks h0 ph0 obtain hi so to ts where
    a: "run ?h0 (take i calls) = Some hi" and
    r: "resolve hi (seq ?c) (seq_size ?c) = Some (so, to, ts)" and
    d: "\<forall>q<P. phases h ! q ! i = nth_transfer hi (seq ?c) so to ts q \<and>
               length (phases h ! q) = length calls"
    by auto
  note fr = run_frame [OF a, unfolded h0]
  have oa: "\<forall>c \<in> set (take i calls). length (seq c) = num_phases ?h0 + 1"
    using oks h0 by (auto dest: in_set_takeD)
  have fa: "\<forall>c \<in> set (take i calls). fits (src_displacements ?h0) (sizes ?h0) (num_chunks ?h0) c"
    using fit h0 by (auto dest: in_set_takeD)
  from run_cursor [OF a oa fa, of s d dp dp sz] h0 dp sz obtain so' where
    c: "at2 (src_offsets hi) s d = Some so'"
       "unat so' = min (unat dp + requested sz C s d (take i calls)) (unat dp + unat sz)"
    by auto
  from nm have fb: "hd (seq ?c) = s" "last (seq ?c) = d" by (simp_all add: names_def)
  from resolve_Some(1) [OF r] fb c(1) have eq: "so = so'" by simp
  with c(2) have inv: "unat so \<le> unat dp + unat sz" by simp
  from fit i have "fits displ szs C ?c" by simp
  from fitsD [OF this] fb dp sz
  have f: "unat dp + unat sz + nominal sz C (seq_size ?c) < 2 ^ 64" by simp
  from resolve_numeric(3) [OF r, of sz dp] fb fr sz dp inv f
  have "unat so + unat ts = min (unat so + nominal sz C (seq_size ?c)) (unat dp + unat sz)"
    by simp
  with c(2) eq nm requested_take_Suc [OF i, of sz C s d]
  have "unat so + unat ts = reach dp sz (requested sz C s d (take (Suc i) calls))"
    by (simp add: reach_def min_def)
  moreover from c(2) eq have "unat so = reach dp sz (requested sz C s d (take i calls))"
    by (simp add: reach_def)
  ultimately show ?thesis using d fr(3) by blast
qed

lemma union_consecutive:
  fixes a :: "nat \<Rightarrow> nat"
  assumes "\<forall>i<n. a i \<le> a (Suc i)"
  shows "(\<Union>i<n. {a i ..< a (Suc i)}) = {a 0 ..< a n}"
  using assms
proof (induction n)
  case 0
  then show ?case by simp
next
  case (Suc n)
  then have IH: "(\<Union>i<n. {a i ..< a (Suc i)}) = {a 0 ..< a n}" by simp
  have m: "a 0 \<le> a n"
  proof -
    have "\<forall>k\<le>n. a 0 \<le> a k"
    proof (intro allI impI)
      fix k show "k \<le> n \<Longrightarrow> a 0 \<le> a k"
      proof (induction k)
        case 0 show ?case by simp
      next
        case (Suc k)
        with \<open>\<forall>i<Suc n. a i \<le> a (Suc i)\<close> have "a k \<le> a (Suc k)" "a 0 \<le> a k" by simp_all
        then show ?case by simp
      qed
    qed
    then show ?thesis by simp
  qed
  from Suc.prems have s: "a n \<le> a (Suc n)" by simp
  have "(\<Union>i<Suc n. {a i ..< a (Suc i)}) = (\<Union>i<n. {a i ..< a (Suc i)}) \<union> {a n ..< a (Suc n)}"
    by (simp add: lessThan_Suc Un_commute)
  also have "\<dots> = {a 0 ..< a n} \<union> {a n ..< a (Suc n)}" by (simp only: IH)
  also have "\<dots> = {a 0 ..< a (Suc n)}" using m s by (rule ivl_disj_un_two(3))
  finally show ?case .
qed

text \<open>
  Claim C1. On a freshly constructed handler, after any sequence of successful calls
  that fit, the first-phase descriptors stand in call order; for every pair
  \<open>(s, d)\<close> the source ranges \<open>[src_pos, src_pos + len)\<close> of the calls that name
  the pair lie in the pair's region and are pairwise disjoint; and once the relative
  sizes requested for the pair reach the chunk count, their union is exactly
  \<open>[src_displacements[s][d], src_displacements[s][d] + sizes[s][d])\<close>.
\<close>

theorem source_ranges_tile:
  assumes run: "run (transfer_handler n displ tdispl szs P C) calls = Some h"
    and oks: "\<forall>c \<in> set calls. length (seq c) = P + 1"
    and fit: "\<forall>c \<in> set calls. fits displ szs C c"
    and dp: "at2 displ s d = Some dp" and sz: "at2 szs s d = Some sz"
    and P: "0 < P"
  shows "length (phases h ! 0) = length calls \<and>
    (\<forall>i<length calls. names s d (calls ! i) \<longrightarrow>
       src_gpu (phases h ! 0 ! i) = s \<and>
       src_range (phases h ! 0 ! i) \<subseteq> {unat dp ..< unat dp + unat sz}) \<and>
    (\<forall>i j. i < j \<and> j < length calls \<and> names s d (calls ! i) \<and> names s d (calls ! j) \<longrightarrow>
       src_range (phases h ! 0 ! i) \<inter> src_range (phases h ! 0 ! j) = {}) \<and>
    (C \<noteq> 0 \<and> unat C \<le> sum_list (map (\<lambda>c. unat (seq_size c)) (filter (names s d) calls)) \<longrightarrow>
       (\<Union>i \<in> {i. i < length calls \<and> names s d (calls ! i)}. src_range (phases h ! 0 ! i))
         = {unat dp ..< unat dp + unat sz})"
proof -
  let ?h0 = "transfer_handler n displ tdispl szs P C"
  define a where "a i = reach dp sz (requested sz C s d (take i calls))" for i
  have mono: "i \<le> j \<Longrightarrow> a i \<le> a j" for i j
    unfolding a_def by (intro reach_mono requested_mono)
  have a0: "a 0 = unat dp" by (simp add: a_def reach_def requested_def)
  have top: "a i \<le> unat dp + unat sz" for i by (simp add: a_def reach_def)
  have rng: "src_gpu (phases h ! 0 ! i) = s \<and> src_range (phases h ! 0 ! i) = {a i ..< a (Suc i)}"
    if i: "i < length calls" and nm: "names s d (calls ! i)" for i
  proof -
    from fresh_descriptor [OF run oks fit i dp sz nm] P obtain hi so to ts where
      d: "phases h ! 0 ! i = nth_transfer hi (seq (calls ! i)) so to ts 0" and
      n: "unat so = a i" "unat so + unat ts = a (Suc i)"
      unfolding a_def by blast
    from oks i have "length (seq (calls ! i)) = P + 1" by simp
    then have "seq (calls ! i) \<noteq> []" by auto
    then have "seq (calls ! i) ! 0 = hd (seq (calls ! i))" by (simp add: hd_conv_nth)
    with nm have "seq (calls ! i) ! 0 = s" by (simp add: names_def)
    with d n show ?thesis by (simp add: nth_transfer_def src_range_def)
  qed
  have skip: "a (Suc i) = a i" if "i < length calls" "\<not> names s d (calls ! i)" for i
    using that by (simp add: a_def requested_take_Suc)
  have len: "length (phases h ! 0) = length calls"
  proof -
    have "num_phases ?h0 = P" "phases ?h0 ! 0 = []" using P by (simp_all add: transfer_handler_def)
    with run_phases [OF run, of 0] oks P show ?thesis by auto
  qed
  have within: "\<forall>i<length calls. names s d (calls ! i) \<longrightarrow>
       src_gpu (phases h ! 0 ! i) = s \<and>
       src_range (phases h ! 0 ! i) \<subseteq> {unat dp ..< unat dp + unat sz}"
  proof (intro allI impI)
    fix i assume i: "i < length calls" and nm: "names s d (calls ! i)"
    from mono [of 0 i] a0 have "unat dp \<le> a i" by simp
    with rng [OF i nm] top [of "Suc i"]
    show "src_gpu (phases h ! 0 ! i) = s \<and>
       src_range (phases h ! 0 ! i) \<subseteq> {unat dp ..< unat dp + unat sz}"
      by auto
  qed
  have disj: "\<forall>i j. i < j \<and> j < length calls \<and> names s d (calls ! i) \<and> names s d (calls ! j) \<longrightarrow>
       src_range (phases h ! 0 ! i) \<inter> src_range (phases h ! 0 ! j) = {}"
  proof (intro allI impI)
    fix i j assume ij: "i < j \<and> j < length calls \<and> names s d (calls ! i) \<and> names s d (calls ! j)"
    then have "a (Suc i) \<le> a j" by (intro mono) simp
    moreover from ij rng [of i] rng [of j]
    have "src_range (phases h ! 0 ! i) = {a i ..< a (Suc i)}"
      "src_range (phases h ! 0 ! j) = {a j ..< a (Suc j)}" by simp_all
    ultimately show "src_range (phases h ! 0 ! i) \<inter> src_range (phases h ! 0 ! j) = {}"
      by auto
  qed
  have tile: "(\<Union>i \<in> {i. i < length calls \<and> names s d (calls ! i)}. src_range (phases h ! 0 ! i))
         = {unat dp ..< unat dp + unat sz}"
    if C: "C \<noteq> 0"
      and enough: "unat C \<le> sum_list (map (\<lambda>c. unat (seq_size c)) (filter (names s d) calls))"
  proof -
    have "(\<Union>i \<in> {i. i < length calls \<and> names s d (calls ! i)}. src_range (phases h ! 0 ! i))
          = (\<Union>i \<in> {i. i < length calls \<and> names s d (calls ! i)}. {a i ..< a (Suc i)})"
      using rng by simp
    also have "\<dots> = (\<Union>i<length calls. {a i ..< a (Suc i)})"
    proof (rule equalityI)
      show "(\<Union>i \<in> {i. i < length calls \<and> names s d (calls ! i)}. {a i ..< a (Suc i)})
            \<subseteq> (\<Union>i<length calls. {a i ..< a (Suc i)})"
        by auto
      show "(\<Union>i<length calls. {a i ..< a (Suc i)})
            \<subseteq> (\<Union>i \<in> {i. i < length calls \<and> names s d (calls ! i)}. {a i ..< a (Suc i)})"
      proof
        fix x assume "x \<in> (\<Union>i<length calls. {a i ..< a (Suc i)})"
        then obtain i where i: "i < length calls" "x \<in> {a i ..< a (Suc i)}" by auto
        with skip [of i] have "names s d (calls ! i)" by (cases "names s d (calls ! i)") auto
        with i show "x \<in> (\<Union>i \<in> {i. i < length calls \<and> names s d (calls ! i)}. {a i ..< a (Suc i)})"
          by auto
      qed
    qed
    also have "\<dots> = {a 0 ..< a (length calls)}"
      by (rule union_consecutive) (simp add: mono)
    also have "a (length calls) = unat dp + unat sz"
      using requested_covers [OF C enough, of sz] by (simp add: a_def reach_def)
    finally show ?thesis by (simp add: a0)
  qed
  from len within disj tile show ?thesis by blast
qed

lemma telescope:
  fixes a :: "nat \<Rightarrow> nat"
  assumes "\<forall>i<m. a i \<le> a (Suc i)"
  shows "(\<Sum>i<m. a (Suc i) - a i) = a m - a 0"
  using assms
proof (induction m)
  case 0
  then show ?case by simp
next
  case (Suc m)
  then have IH: "(\<Sum>i<m. a (Suc i) - a i) = a m - a 0" by simp
  have "\<forall>k\<le>m. a 0 \<le> a k"
  proof (intro allI impI)
    fix k show "k \<le> m \<Longrightarrow> a 0 \<le> a k"
    proof (induction k)
      case 0 show ?case by simp
    next
      case (Suc k)
      with \<open>\<forall>i<Suc m. a i \<le> a (Suc i)\<close> have "a k \<le> a (Suc k)" "a 0 \<le> a k" by simp_all
      then show ?case by simp
    qed
  qed
  then have "a 0 \<le> a m" by simp
  moreover from Suc.prems have "a m \<le> a (Suc m)" by simp
  ultimately show ?case using IH by simp
qed

lemma pair_total:
  assumes run: "run (transfer_handler n displ tdispl szs P C) calls = Some h"
    and oks: "\<forall>c \<in> set calls. length (seq c) = P + 1"
    and fit: "\<forall>c \<in> set calls. fits displ szs C c"
    and dp: "at2 displ s d = Some dp" and sz: "at2 szs s d = Some sz"
    and q: "q < P"
    and C: "C \<noteq> 0"
    and enough: "unat C \<le> sum_list (map (\<lambda>c. unat (seq_size c)) (filter (names s d) calls))"
  shows "(\<Sum>i<length calls. if names s d (calls ! i) then unat (len (phases h ! q ! i)) else 0)
           = unat sz"
proof -
  define a where "a i = reach dp sz (requested sz C s d (take i calls))" for i
  have mono: "i \<le> j \<Longrightarrow> a i \<le> a j" for i j
    unfolding a_def by (intro reach_mono requested_mono)
  have a0: "a 0 = unat dp" by (simp add: a_def reach_def requested_def)
  have am: "a (length calls) = unat dp + unat sz"
    using requested_covers [OF C enough, of sz] by (simp add: a_def reach_def)
  have each: "(if names s d (calls ! i) then unat (len (phases h ! q ! i)) else 0) = a (Suc i) - a i"
    if i: "i < length calls" for i
  proof (cases "names s d (calls ! i)")
    case True
    from fresh_descriptor [OF run oks fit i dp sz True] q obtain hi so to ts where
      d: "phases h ! q ! i = nth_transfer hi (seq (calls ! i)) so to ts q" and
      n: "unat so = a i" "unat so + unat ts = a (Suc i)"
      unfolding a_def by blast
    from d n True show ?thesis by (simp add: nth_transfer_def)
  next
    case False
    with i show ?thesis by (simp add: a_def requested_take_Suc)
  qed
  have "(\<Sum>i<length calls. if names s d (calls ! i) then unat (len (phases h ! q ! i)) else 0)
        = (\<Sum>i<length calls. a (Suc i) - a i)"
    by (rule sum.cong) (simp_all add: each)
  also have "\<dots> = a (length calls) - a 0"
    by (rule telescope) (simp add: mono)
  finally show ?thesis by (simp add: a0 am)
qed

lemma sum_list_filter_nth:
  fixes f :: "'a \<Rightarrow> nat"
  shows "sum_list (map f (filter p xs)) = (\<Sum>i<length xs. if p (xs ! i) then f (xs ! i) else 0)"
proof -
  have "sum_list (map f (filter p xs)) = sum_list (map (\<lambda>x. if p x then f x else 0) xs)"
    by (induction xs) simp_all
  also have "\<dots> = (\<Sum>i<length xs. if p (xs ! i) then f (xs ! i) else 0)"
    using sum_list_sum_nth [of "map (\<lambda>x. if p x then f x else 0) xs"]
    by (simp add: atLeast0LessThan)
  finally show ?thesis .
qed

text \<open>
  Claim C2. On a freshly constructed handler, after the successful calls of a plan
  that fit and whose relative sizes reach the chunk count for every pair \<open>(s, d)\<close>
  of column \<open>d\<close>, the lengths of the last-phase descriptors whose destination device
  is \<open>d\<close> sum to the column sum of \<open>sizes[s][d]\<close> over the sources \<open>s\<close>.
\<close>

theorem flow_conservation:
  assumes run: "run (transfer_handler n displ tdispl szs P C) calls = Some h"
    and oks: "\<forall>c \<in> set calls. length (seq c) = P + 1"
    and fit: "\<forall>c \<in> set calls. fits displ szs C c"
    and n: "length szs = n"
    and P: "0 < P" and C: "C \<noteq> 0"
    and cover: "\<forall>s<n. unat C \<le> sum_list (map (\<lambda>c. unat (seq_size c)) (filter (names s d) calls))"
  shows "sum_list (map (\<lambda>t. unat (len t)) (filter (\<lambda>t. trg_gpu t = d) (phases h ! (P - 1))))
           = (\<Sum>s<n. unat (szs ! s ! d))"
proof -
  let ?h0 = "transfer_handler n displ tdispl szs P C"
  let ?q = "P - 1"
  let ?ds = "phases h ! ?q"
  have h0: "sizes ?h0 = szs" "src_displacements ?h0 = displ" "num_phases ?h0 = P"
    "num_chunks ?h0 = C" by (simp_all add: transfer_handler_def)
  have q: "?q < P" using P by simp
  have ph0: "phases ?h0 ! ?q = []" using q by (simp add: transfer_handler_def)
  have len: "length ?ds = length calls"
    using run_phases [OF run, of ?q] oks q ph0 h0 by auto
  have call: "hd (seq (calls ! i)) < n \<and> trg_gpu (?ds ! i) = last (seq (calls ! i)) \<and>
              at2 displ (hd (seq (calls ! i))) (last (seq (calls ! i))) \<noteq> None \<and>
              at2 szs (hd (seq (calls ! i))) (last (seq (calls ! i))) \<noteq> None"
    if i: "i < length calls" for i
  proof -
    from run_descriptor [OF run _ i] oks h0 q ph0 obtain hi so to ts where
      a: "run ?h0 (take i calls) = Some hi" and
      r: "resolve hi (seq (calls ! i)) (seq_size (calls ! i)) = Some (so, to, ts)" and
      d: "?ds ! i = nth_transfer hi (seq (calls ! i)) so to ts ?q"
      by auto
    note fr = run_frame [OF a, unfolded h0]
    from resolve_Some(4) [OF r] fr obtain sz dp where
      s: "at2 szs (hd (seq (calls ! i))) (last (seq (calls ! i))) = Some sz"
         "at2 displ (hd (seq (calls ! i))) (last (seq (calls ! i))) = Some dp" by auto
    from s(1) n have f: "hd (seq (calls ! i)) < n" by (simp add: at2_Some)
    from oks i have l: "length (seq (calls ! i)) = P + 1" by simp
    then have "last (seq (calls ! i)) = seq (calls ! i) ! P"
      by (cases "seq (calls ! i)" rule: rev_cases) (simp_all add: nth_append)
    with d P have "trg_gpu (?ds ! i) = last (seq (calls ! i))"
      by (simp add: nth_transfer_def)
    with f s show ?thesis by simp
  qed
  have pair: "at2 displ s d \<noteq> None \<and> at2 szs s d \<noteq> None" if s: "s < n" for s
  proof -
    from C have "0 < unat C" by (simp add: unat_gt_0)
    with cover s have "filter (names s d) calls \<noteq> []" by auto
    then obtain c where "c \<in> set calls" "names s d c"
      by (metis filter_False)
    then obtain i where i: "i < length calls" "names s d (calls ! i)"
      by (auto simp: in_set_conv_nth)
    with call [of i] show ?thesis by (simp add: names_def)
  qed
  have "sum_list (map (\<lambda>t. unat (len t)) (filter (\<lambda>t. trg_gpu t = d) ?ds))
        = (\<Sum>i<length calls. if trg_gpu (?ds ! i) = d then unat (len (?ds ! i)) else 0)"
    by (simp only: sum_list_filter_nth len)
  also have "\<dots> = (\<Sum>i<length calls. \<Sum>s<n. if names s d (calls ! i) then unat (len (?ds ! i)) else 0)"
  proof (rule sum.cong)
    fix i assume "i \<in> {..<length calls}"
    then have i: "i < length calls" by simp
    let ?f = "hd (seq (calls ! i))"
    have "(\<Sum>s<n. if names s d (calls ! i) then unat (len (?ds ! i)) else 0)
          = (\<Sum>s<n. if s = ?f then (if last (seq (calls ! i)) = d then unat (len (?ds ! i)) else 0) else 0)"
      by (rule sum.cong) (auto simp: names_def)
    also have "\<dots> = (if last (seq (calls ! i)) = d then unat (len (?ds ! i)) else 0)"
      using call [OF i] by (simp add: sum.delta)
    finally show "(if trg_gpu (?ds ! i) = d then unat (len (?ds ! i)) else 0)
          = (\<Sum>s<n. if names s d (calls ! i) then unat (len (?ds ! i)) else 0)"
      using call [OF i] by simp
  qed simp
  also have "\<dots> = (\<Sum>s<n. \<Sum>i<length calls. if names s d (calls ! i) then unat (len (?ds ! i)) else 0)"
    by (rule sum.swap)
  also have "\<dots> = (\<Sum>s<n. unat (szs ! s ! d))"
  proof (rule sum.cong)
    fix s assume "s \<in> {..<n}"
    then have s: "s < n" by simp
    from pair [OF s] obtain dp sz where
      p: "at2 displ s d = Some dp" "at2 szs s d = Some sz" by auto
    from p(2) have "sz = szs ! s ! d" by (simp add: at2_Some)
    with pair_total [OF run oks fit p q C] cover s
    show "(\<Sum>i<length calls. if names s d (calls ! i) then unat (len (?ds ! i)) else 0)
          = unat (szs ! s ! d)" by simp
  qed simp
  finally show ?thesis .
qed

lemma demo_calls_ok: "\<forall>c \<in> set demo_calls. length (seq c) = 3 + 1"
  by (simp add: demo_calls_def)

lemma demo_calls_fit:
  "\<forall>c \<in> set demo_calls. fits [[0,10,15,18],[0,3,10,11],[0,2,4,6]] [[10,5,3],[3,7,1],[2,2,2]] 2 c"
  by (simp add: demo_calls_def fits_def at2_def nominal_def)

lemma demo_calls_cover:
  "(2 :: size_t) \<noteq> 0 \<and>
   unat (2 :: size_t) \<le> sum_list (map (\<lambda>c. unat (seq_size c)) (filter (names 0 1) demo_calls))"
  by (simp add: demo_calls_def names_def)

lemma demo_calls_named:
  "{i. i < length demo_calls \<and> names 0 1 (demo_calls ! i)} = {0, 2}"
proof -
  have three: "i < 3 \<longleftrightarrow> i = 0 \<or> i = 1 \<or> i = 2" for i :: nat by auto
  have len: "length demo_calls = 3" by (simp add: demo_calls_def)
  have n: "names 0 1 (demo_calls ! 0)" "\<not> names 0 1 (demo_calls ! 1)" "names 0 1 (demo_calls ! 2)"
    by (simp_all add: demo_calls_def names_def)
  show ?thesis unfolding len three using n by auto
qed

theorem source_ranges_tile_witness:
  "\<exists>h. run demo_handler demo_calls = Some h \<and>
     (\<forall>c \<in> set demo_calls. length (seq c) = 3 + 1) \<and>
     (\<forall>c \<in> set demo_calls.
        fits [[0,10,15,18],[0,3,10,11],[0,2,4,6]] [[10,5,3],[3,7,1],[2,2,2]] 2 c) \<and>
     at2 [[0,10,15,18],[0,3,10,11],[0,2,4,6]] 0 1 = Some (10 :: size_t) \<and>
     at2 [[10,5,3],[3,7,1],[2,2,2]] 0 1 = Some (5 :: size_t) \<and>
     names 0 1 (demo_calls ! 0) \<and> names 0 1 (demo_calls ! 2) \<and>
     src_range (phases h ! 0 ! 0) \<inter> src_range (phases h ! 0 ! 2) = {} \<and>
     src_range (phases h ! 0 ! 0) \<union> src_range (phases h ! 0 ! 2) = {10 ..< 15}"
proof -
  from demo_run_some obtain h where run: "run demo_handler demo_calls = Some h"
    by (cases "run demo_handler demo_calls") auto
  have dp: "at2 [[0,10,15,18],[0,3,10,11],[0,2,4,6]] 0 1 = Some (10 :: size_t)"
    and sz: "at2 [[10,5,3],[3,7,1],[2,2,2]] 0 1 = Some (5 :: size_t)"
    by (simp_all add: at2_def)
  have nm: "names 0 1 (demo_calls ! 0)" "names 0 1 (demo_calls ! 2)"
    by (simp_all add: demo_calls_def names_def)
  have P: "0 < (3 :: nat)" by simp
  note t = source_ranges_tile [OF run [unfolded demo_handler_def] demo_calls_ok demo_calls_fit dp sz P]
  from t have "\<forall>i j. i < j \<and> j < length demo_calls \<and> names 0 1 (demo_calls ! i) \<and>
       names 0 1 (demo_calls ! j) \<longrightarrow>
       src_range (phases h ! 0 ! i) \<inter> src_range (phases h ! 0 ! j) = {}" by blast
  from this [rule_format, of 0 2] nm
  have disj: "src_range (phases h ! 0 ! 0) \<inter> src_range (phases h ! 0 ! 2) = {}"
    by (simp add: demo_calls_def)
  from t demo_calls_cover
  have "(\<Union>i \<in> {i. i < length demo_calls \<and> names 0 1 (demo_calls ! i)}. src_range (phases h ! 0 ! i))
         = {unat (10 :: size_t) ..< unat (10 :: size_t) + unat (5 :: size_t)}" by blast
  then have tile: "src_range (phases h ! 0 ! 0) \<union> src_range (phases h ! 0 ! 2) = {10 ..< 15}"
    unfolding demo_calls_named by simp
  from run demo_calls_ok demo_calls_fit dp sz nm disj tile show ?thesis by blast
qed

lemma demo_plan_run:
  "map_option num_phases
     (run (transfer_handler 2 [[0,10,15],[0,3,10]] [[0,0],[10,5],[13,12]] [[10,5],[3,7]] 2 1)
        (transfer_sequences two_phase_plan)) = Some 2"
  by code_simp

lemma demo_plan_ok: "\<forall>c \<in> set (transfer_sequences two_phase_plan). length (seq c) = 2 + 1"
  by (simp add: two_phase_plan_def)

lemma demo_plan_fit:
  "\<forall>c \<in> set (transfer_sequences two_phase_plan). fits [[0,10,15],[0,3,10]] [[10,5],[3,7]] 1 c"
  by (simp add: two_phase_plan_def fits_def at2_def nominal_def)

lemma demo_plan_cover:
  "\<forall>s<2. unat (1 :: size_t) \<le>
      sum_list (map (\<lambda>c. unat (seq_size c)) (filter (names s 0) (transfer_sequences two_phase_plan)))"
  by (auto simp: two_phase_plan_def names_def less_2_cases_iff)

theorem flow_conservation_witness:
  "\<exists>h. run (transfer_handler 2 [[0,10,15],[0,3,10]] [[0,0],[10,5],[13,12]] [[10,5],[3,7]] 2 1)
          (transfer_sequences two_phase_plan) = Some h \<and>
     (\<forall>c \<in> set (transfer_sequences two_phase_plan). length (seq c) = 2 + 1) \<and>
     (\<forall>c \<in> set (transfer_sequences two_phase_plan).
        fits [[0,10,15],[0,3,10]] [[10,5],[3,7]] 1 c) \<and>
     length [[10,5],[3,7 :: size_t]] = 2 \<and>
     (\<forall>s<2. unat (1 :: size_t) \<le>
        sum_list (map (\<lambda>c. unat (seq_size c))
          (filter (names s 0) (transfer_sequences two_phase_plan)))) \<and>
     sum_list (map (\<lambda>t. unat (len t)) (filter (\<lambda>t. trg_gpu t = 0) (phases h ! (2 - 1)))) = 13"
proof -
  from demo_plan_run obtain h where
    run: "run (transfer_handler 2 [[0,10,15],[0,3,10]] [[0,0],[10,5],[13,12]] [[10,5],[3,7]] 2 1)
          (transfer_sequences two_phase_plan) = Some h"
    by (cases "run (transfer_handler 2 [[0,10,15],[0,3,10]] [[0,0],[10,5],[13,12]] [[10,5],[3,7]] 2 1)
          (transfer_sequences two_phase_plan)") auto
  have n: "length [[10,5],[3,7 :: size_t]] = 2" by simp
  have P: "0 < (2 :: nat)" and C: "(1 :: size_t) \<noteq> 0" by simp_all
  from flow_conservation [OF run demo_plan_ok demo_plan_fit n P C demo_plan_cover]
  have "sum_list (map (\<lambda>t. unat (len t)) (filter (\<lambda>t. trg_gpu t = 0) (phases h ! (2 - 1))))
        = (\<Sum>s<2. unat ([[10,5],[3,7 :: size_t]] ! s ! 0))" .
  also have "\<dots> = 13"
  proof -
    have "{..<2 :: nat} = {0, 1}" by auto
    then show ?thesis by simp
  qed
  finally show ?thesis using run demo_plan_ok demo_plan_fit n demo_plan_cover by blast
qed

section \<open>The cursor checks of the orchestrator\<close>

lemma check_size_nth:
  "check_size cs ls \<Longrightarrow> d < length cs \<Longrightarrow> d < length ls \<Longrightarrow> cs ! d \<le> ls ! d"
  by (auto simp: check_size_def list_all_length)

lemma check_phases_True:
  "check_phases po ps dl = Some True \<Longrightarrow> p \<in> set ps \<Longrightarrow> check_size (po ! p) dl"
  by (induction ps) (auto split: if_splits)

lemma cursors_ok_True:
  assumes "cursors_ok a h dl = Some True"
  shows "\<forall>p < num_phases h - 1. check_size (phases_offsets h ! p) dl"
    and "check_size (trg_offsets h ! context_num_devices a) dl"
proof -
  from assms obtain ok where
    c: "check_phases (phases_offsets h) [0 ..< num_phases h - 1] dl = Some ok" and
    t: "ok" "check_size (trg_offsets h ! context_num_devices a) dl"
    by (auto simp: cursors_ok_def split: if_splits Option.bind_splits)
  from c t(1) show "\<forall>p < num_phases h - 1. check_size (phases_offsets h ! p) dl"
    by (auto dest: check_phases_True)
  from t show "check_size (trg_offsets h ! context_num_devices a) dl" by simp
qed

lemma cursors_ok_overrun:
  assumes c: "cursors_ok a h dl = Some ok"
    and over: "(\<exists>p d. p < num_phases h - 1 \<and> d < length (phases_offsets h ! p) \<and> d < length dl \<and>
                 dl ! d < phases_offsets h ! p ! d) \<or>
               (\<exists>d. d < length (trg_offsets h ! context_num_devices a) \<and> d < length dl \<and>
                 dl ! d < trg_offsets h ! context_num_devices a ! d)"
  shows "\<not> ok"
proof
  assume ok
  with c have t: "cursors_ok a h dl = Some True" by simp
  from over show False
  proof
    assume "\<exists>p d. p < num_phases h - 1 \<and> d < length (phases_offsets h ! p) \<and> d < length dl \<and>
                 dl ! d < phases_offsets h ! p ! d"
    then obtain p d where p: "p < num_phases h - 1" "d < length (phases_offsets h ! p)"
      "d < length dl" "dl ! d < phases_offsets h ! p ! d" by blast
    from cursors_ok_True(1) [OF t] p(1) have "check_size (phases_offsets h ! p) dl" by simp
    from check_size_nth [OF this p(2,3)] p(4) show False by simp
  next
    assume "\<exists>d. d < length (trg_offsets h ! context_num_devices a) \<and> d < length dl \<and>
                 dl ! d < trg_offsets h ! context_num_devices a ! d"
    then obtain d where d: "d < length (trg_offsets h ! context_num_devices a)" "d < length dl"
      "dl ! d < trg_offsets h ! context_num_devices a ! d" by blast
    from check_size_nth [OF cursors_ok_True(2) [OF t] d(1,2)] d(3) show False by simp
  qed
qed

lemma execAsync_cases:
  assumes "execAsync upd a srcs sl dsts dl sc = Some (ok, s', d', evs)"
  shows "(\<not> ok \<and> s' = srcs \<and> d' = dsts \<and> evs = []) \<or>
         (\<exists>h. prepare_transfers a sc = Some h \<and> cursors_ok a h dl = Some True \<and> ok)"
  using assms
  by (auto simp: execAsync_def split: if_splits Option.bind_splits prod.splits)

lemma prepareExec_cases:
  assumes "prepareExec upd g srcs sl dsts dl sc = Some (ok, s', d', g', evs)"
  shows "(\<not> ok \<and> s' = srcs \<and> d' = dsts) \<or>
         (\<exists>h. prepare_transfers (all2all_t.truncate g) sc = Some h \<and>
              cursors_ok (all2all_t.truncate g) h dl = Some True \<and> ok)"
  using assms
  by (auto simp: prepareExec_def split: if_splits Option.bind_splits prod.splits)

lemma overrun_checked:
  assumes prep: "prepare_transfers a sc = Some h"
    and over: "(\<exists>p d. p < num_phases h - 1 \<and> d < length (phases_offsets h ! p) \<and> d < length dl \<and>
                 dl ! d < phases_offsets h ! p ! d) \<or>
               (\<exists>d. d < length (trg_offsets h ! context_num_devices a) \<and> d < length dl \<and>
                 dl ! d < trg_offsets h ! context_num_devices a ! d)"
  shows "(execAsync upd a srcs sl dsts dl sc = Some (ok, s', d', evs) \<longrightarrow>
            \<not> ok \<and> s' = srcs \<and> d' = dsts \<and> evs = []) \<and>
         (all2all_t.truncate g = a \<and>
          prepareExec upd g srcs sl dsts dl sc = Some (okg, sg, dg, gg, evsg) \<longrightarrow>
            \<not> okg \<and> sg = srcs \<and> dg = dsts \<and> filter is_launch evsg = [])"
proof (intro conjI impI)
  assume e: "execAsync upd a srcs sl dsts dl sc = Some (ok, s', d', evs)"
  from execAsync_cases [OF e] prep cursors_ok_overrun [OF _ over, of True]
  show "\<not> ok" "s' = srcs" "d' = dsts" "evs = []" by auto
next
  assume p: "all2all_t.truncate g = a \<and>
          prepareExec upd g srcs sl dsts dl sc = Some (okg, sg, dg, gg, evsg)"
  then have pe: "prepareExec upd g srcs sl dsts dl sc = Some (okg, sg, dg, gg, evsg)" by simp
  from prepareExec_cases [OF pe] p prep cursors_ok_overrun [OF _ over, of True]
  show "\<not> okg" "sg = srcs" "dg = dsts" by auto
  from prepareExec_events [OF pe] show "filter is_launch evsg = []" by simp
qed

lemma run_trg_row:
  "run h calls = Some h' \<Longrightarrow> length (sizes h) \<le> k \<Longrightarrow> trg_offsets h' ! k = trg_offsets h ! k"
proof (induction calls arbitrary: h)
  case Nil
  then show ?case by simp
next
  case (Cons c cs)
  from Cons.prems(1) obtain ok h1 where
    st: "add_transfer h (seq c) (seq_size c) = Some (ok, h1)" and rest: "run h1 cs = Some h'"
    by (auto split: Option.bind_splits)
  note fr = add_transfer_frame(1) [OF st]
  have "trg_offsets h1 ! k = trg_offsets h ! k"
  proof (cases ok)
    case False
    with st show ?thesis by (simp add: add_transfer_False)
  next
    case True
    with st obtain so to ts phs po where
      r: "resolve h (seq c) (seq_size c) = Some (so, to, ts)" and
      h1: "h1 = h \<lparr> src_offsets := set2 (src_offsets h) (hd (seq c)) (last (seq c)) (so + ts),
               phases_offsets := po,
               trg_offsets := set2 (trg_offsets h) (hd (seq c)) (last (seq c)) (to + ts),
               phases := phs \<rparr>"
      by (auto elim: add_transfer_True)
    from resolve_Some(4) [OF r] have "hd (seq c) < length (sizes h)" by (auto simp: at2_Some)
    with Cons.prems(2) have "hd (seq c) \<noteq> k" by simp
    with h1 show ?thesis by (simp add: set2_def)
  qed
  with Cons.IH [OF rest] Cons.prems(2) fr show ?case by simp
qed

lemma unat_column_sum:
  assumes "(\<Sum>q<n. unat (sc ! q ! d)) < 2 ^ 64" and "p \<le> n"
  shows "unat (column_sum sc d p) = (\<Sum>q<p. unat (sc ! q ! d))"
proof -
  have "(\<Sum>q<p. unat (sc ! q ! d)) \<le> (\<Sum>q<n. unat (sc ! q ! d))"
    using assms(2) by (intro sum_mono2) auto
  with assms(1) have small: "(\<Sum>q<p. unat (sc ! q ! d)) < 2 ^ 64" by simp
  have "sum_list (map unat (map (\<lambda>part. sc ! part ! d) [0 ..< p])) = (\<Sum>q<p. unat (sc ! q ! d))"
    using sum_list_upt_sum [of "\<lambda>q. unat (sc ! q ! d)" p] by (simp add: comp_def)
  with small unat_sum_list [of "map (\<lambda>part. sc ! part ! d) [0 ..< p]"]
  show ?thesis by (simp add: column_sum_def)
qed

lemma pair_cursor_below_total:
  assumes prep: "prepare_transfers a sc = Some h"
    and shape: "length sc = context_num_devices a"
      "\<forall>counts \<in> set sc. length counts = context_num_devices a"
    and fit: "\<forall>c \<in> set (transfer_sequences (transfer_plan a)).
        fits (compute_src_displacements (context_num_devices a) sc) sc
          (plan_num_chunks (transfer_plan a)) c"
    and col: "(\<Sum>q<context_num_devices a. unat (sc ! q ! d)) < 2 ^ 64"
    and s: "s < context_num_devices a" and d: "d < context_num_devices a"
  shows "unat (trg_offsets h ! s ! d) \<le> unat (trg_offsets h ! context_num_devices a ! d)"
    and "d < length (trg_offsets h ! context_num_devices a)"
proof -
  let ?n = "context_num_devices a"
  let ?sd = "compute_src_displacements ?n sc"
  let ?td = "compute_trg_displacements ?n sc"
  let ?P = "num_steps (transfer_plan a)"
  let ?C = "plan_num_chunks (transfer_plan a)"
  let ?calls = "transfer_sequences (transfer_plan a)"
  let ?h0 = "transfer_handler ?n ?sd ?td sc ?P ?C"
  from prep have run: "run ?h0 ?calls = Some h"
    by (simp add: prepare_transfers_def Let_def)
  have h0: "sizes ?h0 = sc" "src_displacements ?h0 = ?sd" "num_phases ?h0 = ?P"
    "num_chunks ?h0 = ?C" "src_offsets ?h0 = ?sd" "trg_offsets ?h0 = ?td"
    by (simp_all add: transfer_handler_def)
  from shape s have row: "length (sc ! s) = ?n" by simp
  have sz: "at2 sc s d = Some (sc ! s ! d)" using shape s d row by (simp add: at2_Some)
  have sd: "at2 ?sd s d = Some (?sd ! s ! d)"
    using s d src_displacements_nth(2) [OF s row, of 0]
    by (simp add: at2_Some compute_src_displacements_def)
  have td: "at2 ?td s d = Some (?td ! s ! d)"
    using s d trg_displacements_nth(2,3) [of s ?n d sc] by (simp add: at2_Some)
  from run_cursors [OF run, of s d "?sd ! s ! d" "?td ! s ! d"] h0 sd td obtain total where
    t: "at2 (src_offsets h) s d = Some (?sd ! s ! d + total)"
       "at2 (trg_offsets h) s d = Some (?td ! s ! d + total)" by auto
  let ?ok = "filter (\<lambda>c. length (seq c) = ?P + 1) ?calls"
  from run_filter [OF run] h0 have run': "run ?h0 ?ok = Some h" by simp
  from run_cursor [OF run', of s d "?sd ! s ! d" "?sd ! s ! d" "sc ! s ! d"] h0 fit sd sz
  obtain so' where so': "at2 (src_offsets h) s d = Some so'"
    "unat so' = min (unat (?sd ! s ! d) + requested (sc ! s ! d) ?C s d ?ok)
                    (unat (?sd ! s ! d) + unat (sc ! s ! d))" by auto
  from t(1) so'(1) have eq: "so' = ?sd ! s ! d + total" by simp
  then have tot: "total = so' - ?sd ! s ! d" by simp
  from so'(2) have lo: "unat (?sd ! s ! d) \<le> unat so'"
    and hi: "unat so' \<le> unat (?sd ! s ! d) + unat (sc ! s ! d)" by simp_all
  from lo have "?sd ! s ! d \<le> so'" by (simp add: word_le_nat_alt)
  then have "unat total = unat so' - unat (?sd ! s ! d)" unfolding tot by (rule unat_sub)
  with hi have ut: "unat total \<le> unat (sc ! s ! d)" by simp
  have "unat (?td ! s ! d + total) \<le> unat (?td ! s ! d) + unat total"
    by (simp add: unat_word_ariths)
  with ut have 1: "unat (?td ! s ! d + total) \<le> unat (?td ! s ! d) + unat (sc ! s ! d)" by simp
  have tds: "?td ! s ! d = column_sum sc d s" "?td ! ?n ! d = column_sum sc d ?n"
    using trg_displacements_nth(1) [of s ?n d sc] trg_displacements_nth(1) [of ?n ?n d sc] s d
    by simp_all
  have "unat (?td ! s ! d) + unat (sc ! s ! d) = (\<Sum>q<Suc s. unat (sc ! q ! d))"
    using unat_column_sum [OF col, of s] s by (simp add: tds)
  also have "\<dots> \<le> (\<Sum>q<?n. unat (sc ! q ! d))"
    using s by (intro sum_mono2) auto
  also have "\<dots> = unat (?td ! ?n ! d)"
    using unat_column_sum [OF col, of ?n] by (simp add: tds)
  finally have 2: "unat (?td ! s ! d) + unat (sc ! s ! d) \<le> unat (?td ! ?n ! d)" .
  from run_trg_row [OF run, of ?n] h0 shape have rowN: "trg_offsets h ! ?n = ?td ! ?n" by simp
  from t(2) have "trg_offsets h ! s ! d = ?td ! s ! d + total" by (simp add: at2_Some)
  with 1 2 rowN show "unat (trg_offsets h ! s ! d) \<le> unat (trg_offsets h ! ?n ! d)" by simp
  from rowN trg_displacements_nth(3) [of ?n ?n d sc] d
  show "d < length (trg_offsets h ! ?n)" by simp
qed

text \<open>
  Claim C7. When, after the bookkeeping, an intermediate cursor of some phase boundary
  or the cursor of the last destination row exceeds the declared destination-buffer
  length of its device, \<open>execAsync\<close> returns false with no event at all, and
  \<open>prepareExec\<close> returns false with no launch among its events; the caller's vectors
  are unchanged. The same holds when the destination cursor of some pair exceeds the
  length, given valid inputs, calls that fit and a column sum below \<open>2^64\<close>: such a
  cursor never exceeds the cursor of the last row.
\<close>

theorem overrun_returns_false:
  assumes prep: "prepare_transfers a sc = Some h"
    and over: "(\<exists>p d. p < num_phases h - 1 \<and> d < length (phases_offsets h ! p) \<and> d < length dl \<and>
                 dl ! d < phases_offsets h ! p ! d) \<or>
               (\<exists>d. d < length (trg_offsets h ! context_num_devices a) \<and> d < length dl \<and>
                 dl ! d < trg_offsets h ! context_num_devices a ! d) \<or>
               (inputs_ok a srcs sl dsts dl sc \<and>
                (\<forall>c \<in> set (transfer_sequences (transfer_plan a)).
                   fits (compute_src_displacements (context_num_devices a) sc) sc
                     (plan_num_chunks (transfer_plan a)) c) \<and>
                (\<exists>s d. s < context_num_devices a \<and> d < context_num_devices a \<and>
                   (\<Sum>q<context_num_devices a. unat (sc ! q ! d)) < 2 ^ 64 \<and>
                   dl ! d < trg_offsets h ! s ! d))"
  shows "(execAsync upd a srcs sl dsts dl sc = Some (ok, s', d', evs) \<longrightarrow>
            \<not> ok \<and> s' = srcs \<and> d' = dsts \<and> evs = []) \<and>
         (all2all_t.truncate g = a \<and>
          prepareExec upd g srcs sl dsts dl sc = Some (okg, sg, dg, gg, evsg) \<longrightarrow>
            \<not> okg \<and> sg = srcs \<and> dg = dsts \<and> filter is_launch evsg = [])"
proof -
  have "(\<exists>p d. p < num_phases h - 1 \<and> d < length (phases_offsets h ! p) \<and> d < length dl \<and>
                 dl ! d < phases_offsets h ! p ! d) \<or>
        (\<exists>d. d < length (trg_offsets h ! context_num_devices a) \<and> d < length dl \<and>
                 dl ! d < trg_offsets h ! context_num_devices a ! d)"
  proof -
    {
      assume io: "inputs_ok a srcs sl dsts dl sc"
        and fit: "\<forall>c \<in> set (transfer_sequences (transfer_plan a)).
                   fits (compute_src_displacements (context_num_devices a) sc) sc
                     (plan_num_chunks (transfer_plan a)) c"
        and ex: "\<exists>s d. s < context_num_devices a \<and> d < context_num_devices a \<and>
                   (\<Sum>q<context_num_devices a. unat (sc ! q ! d)) < 2 ^ 64 \<and>
                   dl ! d < trg_offsets h ! s ! d"
      from ex obtain s d where sd: "s < context_num_devices a" "d < context_num_devices a"
        "(\<Sum>q<context_num_devices a. unat (sc ! q ! d)) < 2 ^ 64"
        "dl ! d < trg_offsets h ! s ! d" by blast
      from io have shape: "length sc = context_num_devices a"
        "\<forall>counts \<in> set sc. length counts = context_num_devices a"
        and dl: "length dl = context_num_devices a"
        by (simp_all add: inputs_ok_iff)
      note b = pair_cursor_below_total [OF prep shape fit sd(3) sd(1,2)]
      from sd(4) b(1) have "dl ! d < trg_offsets h ! context_num_devices a ! d"
        by (simp add: word_less_nat_alt)
      with b(2) sd(2) dl
      have "\<exists>d. d < length (trg_offsets h ! context_num_devices a) \<and> d < length dl \<and>
                 dl ! d < trg_offsets h ! context_num_devices a ! d" by auto
    }
    with over show ?thesis by blast
  qed
  from overrun_checked [OF prep this] show ?thesis .
qed

lemma demo_overrun_prepare:
  "map_option (\<lambda>h. (num_phases h, phases_offsets h)) (prepare_transfers two_phase_engine scenario_a)
     = Some (2, [[10, 15]])"
  by code_simp

lemma demo_overrun_exec:
  "execAsync always_update two_phase_engine [100, 101] [15, 10] [200, 201] [13, 12] scenario_a
     = Some (False, [100, 101], [200, 201], [])"
  by code_simp

lemma demo_overrun_graph:
  "map_option fst (prepareExec always_update (fresh_graph_engine two_phase_engine)
      [100, 101] [15, 10] [200, 201] [13, 12] scenario_a) = Some False"
  "all2all_t.truncate (fresh_graph_engine two_phase_engine) = two_phase_engine"
  by code_simp+

theorem overrun_returns_false_witness:
  "\<exists>h. prepare_transfers two_phase_engine scenario_a = Some h \<and>
     (1 :: nat) < length (phases_offsets h ! 0) \<and> [13, 12 :: size_t] ! 1 < phases_offsets h ! 0 ! 1 \<and>
     execAsync always_update two_phase_engine [100, 101] [15, 10] [200, 201] [13, 12] scenario_a
       = Some (False, [100, 101], [200, 201], []) \<and>
     (\<exists>gg evsg. prepareExec always_update (fresh_graph_engine two_phase_engine)
        [100, 101] [15, 10] [200, 201] [13, 12] scenario_a = Some (False, [100, 101], [200, 201], gg, evsg) \<and>
        filter is_launch evsg = [])"
proof -
  from demo_overrun_prepare obtain h where
    prep: "prepare_transfers two_phase_engine scenario_a = Some h" and
    h: "num_phases h = 2" "phases_offsets h = [[10, 15]]"
    by (cases "prepare_transfers two_phase_engine scenario_a") auto
  have c: "(0 :: nat) < num_phases h - 1 \<and> (1 :: nat) < length (phases_offsets h ! 0) \<and>
        (1 :: nat) < length [13, 12 :: size_t] \<and> [13, 12 :: size_t] ! 1 < phases_offsets h ! 0 ! 1"
    by (simp add: h)
  then have over: "(\<exists>p d. p < num_phases h - 1 \<and> d < length (phases_offsets h ! p) \<and>
                 d < length [13, 12 :: size_t] \<and> [13, 12] ! d < phases_offsets h ! p ! d) \<or>
               (\<exists>d. d < length (trg_offsets h ! context_num_devices two_phase_engine) \<and>
                 d < length [13, 12 :: size_t] \<and>
                 [13, 12] ! d < trg_offsets h ! context_num_devices two_phase_engine ! d) \<or>
               (inputs_ok two_phase_engine [100, 101] [15, 10] [200, 201] [13, 12] scenario_a \<and>
                (\<forall>c \<in> set (transfer_sequences (transfer_plan two_phase_engine)).
                   fits (compute_src_displacements (context_num_devices two_phase_engine) scenario_a)
                     scenario_a (plan_num_chunks (transfer_plan two_phase_engine)) c) \<and>
                (\<exists>s d. s < context_num_devices two_phase_engine \<and>
                   d < context_num_devices two_phase_engine \<and>
                   (\<Sum>q<context_num_devices two_phase_engine. unat (scenario_a ! q ! d)) < 2 ^ 64 \<and>
                   [13, 12] ! d < trg_offsets h ! s ! d))"
    by blast
  from demo_overrun_graph(1) obtain okg sg dg gg evsg where
    pe: "prepareExec always_update (fresh_graph_engine two_phase_engine)
        [100, 101] [15, 10] [200, 201] [13, 12] scenario_a = Some (okg, sg, dg, gg, evsg)"
    by (cases "prepareExec always_update (fresh_graph_engine two_phase_engine)
        [100, 101] [15, 10] [200, 201] [13, 12] scenario_a") auto
  from overrun_returns_false [OF prep over, where upd = always_update and ok = False and s' = "[100, 101]"
      and d' = "[200, 201]" and evs = "[]" and g = "fresh_graph_engine two_phase_engine"
      and okg = okg and sg = sg and dg = dg and gg = gg and evsg = evsg]
    demo_overrun_exec demo_overrun_graph(2) pe
  have "\<not> okg \<and> sg = [100, 101] \<and> dg = [200, 201] \<and> filter is_launch evsg = []" by blast
  with pe prep c demo_overrun_exec show ?thesis by auto
qed

section \<open>Regions that end at the top of \<open>size_t\<close>\<close>

text \<open>
  The bounds test of \<open>add_transfer\<close> and \<open>push_back\<close> compares
  \<open>src_offset + transfer_size\<close> with the limit in \<open>size_t\<close> arithmetic. When the
  region of a pair ends within a nominal length of \<open>2^64\<close> the sum wraps around, the
  test does not fire and the length is not clamped. The run below is that of a plan
  over the send counts \<open>edge_counts\<close>, whose displacement tables are those the scans
  compute; the orchestrator accepts the plan and these send counts and returns true.
\<close>

lemma edge_tables:
  "compute_src_displacements 2 edge_counts = [[0, 18446744073709551610, 18446744073709551615], [0, 0, 0]]"
  "compute_trg_displacements 2 edge_counts = [[0, 0], [18446744073709551610, 5], [18446744073709551610, 5]]"
  by code_simp+

lemma edge_SDIV:
  "SDIV 18446744073709551610 2 = 9223372036854775805" "SDIV 5 2 = 3" "SDIV 0 2 = 0"
  by (simp_all add: SDIV_def)

lemma edge_prefix:
  "run edge_handler [\<lparr>seq = [0, 0], seq_size = 2\<rparr>, \<lparr>seq = [0, 1], seq_size = 1\<rparr>] =
     Some \<lparr> src_offsets = [[18446744073709551610, 18446744073709551613, 18446744073709551615], [0, 0, 0]],
            phases_offsets = [],
            trg_offsets = [[18446744073709551610, 3], [18446744073709551610, 5], [18446744073709551610, 5]],
            src_displacements = [[0, 18446744073709551610, 18446744073709551615], [0, 0, 0]],
            sizes = [[18446744073709551610, 5], [0, 0]],
            num_phases = 1,
            phases = [[\<lparr>src_gpu = 0, src_pos = 0, trg_gpu = 0, trg_pos = 0, len = 18446744073709551610\<rparr>,
                       \<lparr>src_gpu = 0, src_pos = 18446744073709551610, trg_gpu = 1, trg_pos = 0, len = 3\<rparr>]],
            num_chunks = 2 \<rparr>"
  by (simp add: edge_handler_def edge_counts_def transfer_handler_def add_transfer_def resolve_def
        emit_def emplace_back_def at2_def set2_def check_def edge_SDIV)

lemma edge_run:
  "run edge_handler edge_calls =
     Some \<lparr> src_offsets = [[18446744073709551610, 0, 18446744073709551615], [0, 0, 0]],
            phases_offsets = [],
            trg_offsets = [[18446744073709551610, 6], [18446744073709551610, 5], [18446744073709551610, 5]],
            src_displacements = [[0, 18446744073709551610, 18446744073709551615], [0, 0, 0]],
            sizes = [[18446744073709551610, 5], [0, 0]],
            num_phases = 1,
            phases = [[\<lparr>src_gpu = 0, src_pos = 0, trg_gpu = 0, trg_pos = 0, len = 18446744073709551610\<rparr>,
                       \<lparr>src_gpu = 0, src_pos = 18446744073709551610, trg_gpu = 1, trg_pos = 0, len = 3\<rparr>,
                       \<lparr>src_gpu = 0, src_pos = 18446744073709551613, trg_gpu = 1, trg_pos = 3, len = 3\<rparr>,
                       \<lparr>src_gpu = 1, src_pos = 0, trg_gpu = 0, trg_pos = 18446744073709551610, len = 0\<rparr>,
                       \<lparr>src_gpu = 1, src_pos = 0, trg_gpu = 1, trg_pos = 5, len = 0\<rparr>]],
            num_chunks = 2 \<rparr>"
  by (simp add: edge_handler_def edge_calls_def edge_counts_def transfer_handler_def add_transfer_def
        resolve_def emit_def emplace_back_def at2_def set2_def check_def edge_SDIV)

lemma edge_prepared: "prepare_transfers edge_engine edge_counts = run edge_handler edge_calls"
  by (simp add: prepare_transfers_def edge_engine_def all2all_with_plan_def edge_tables
        edge_handler_def)

lemma edge_accepted:
  "map_option fst
     (execAsync always_update edge_engine [100, 101] [18446744073709551615, 0]
        [200, 201] [18446744073709551610, 5] edge_counts) = Some True"
proof -
  have i: "inputs_ok edge_engine [100, 101] [18446744073709551615, 0]
        [200, 201] [18446744073709551610, 5] edge_counts"
    by (simp add: inputs_ok_def edge_engine_def all2all_with_plan_def check_def edge_counts_def)
  have n: "context_num_devices edge_engine = 2"
    by (simp add: edge_engine_def all2all_with_plan_def)
  show ?thesis
    unfolding execAsync_def edge_prepared edge_run
    by (simp add: i n cursors_ok_def check_size_def execute_def update_graph_def capture_def
          capture_phase_def record_copy_def update_or_instantiate_def always_update_def)
qed

text \<open>
  Claim C1 as stated fails on this run: the calls that name the pair \<open>(0, 1)\<close> request
  relative sizes that sum to the chunk count, and the source ranges they claim cover
  \<open>[2^64 - 6, 2^64)\<close>, one element more than the region \<open>[2^64 - 6, 2^64 - 1)\<close> of the
  pair.
\<close>

theorem tiling_counterexample:
  "map_option (claimed 0 1 edge_calls) (run edge_handler edge_calls)
     = Some {18446744073709551610 ..< 18446744073709551616} \<and>
   {18446744073709551610 ..< 18446744073709551616}
     \<noteq> {unat (18446744073709551610 :: size_t) ..< unat (18446744073709551610 :: size_t) + unat (5 :: size_t)} \<and>
   relative_total 0 1 edge_calls = unat (num_chunks edge_handler)"
proof -
  have ix: "filter (\<lambda>i. names 0 1 (edge_calls ! i)) [0 ..< length edge_calls] = [1, 2]"
    by (simp add: edge_calls_def names_def upt_rec)
  have u: "{18446744073709551610 ..< 18446744073709551613} \<union> {18446744073709551613 ..< 18446744073709551616}
             = {18446744073709551610 ..< 18446744073709551616 :: nat}"
    by (rule ivl_disj_un_two(3)) simp_all
  have a: "map_option (claimed 0 1 edge_calls) (run edge_handler edge_calls)
     = Some {18446744073709551610 ..< 18446744073709551616}"
    unfolding edge_run claimed_def ix by (simp add: src_range_def u)
  have "(18446744073709551615 :: nat) \<in> {18446744073709551610 ..< 18446744073709551616}" by simp
  moreover have "(18446744073709551615 :: nat) \<notin>
      {unat (18446744073709551610 :: size_t) ..< unat (18446744073709551610 :: size_t) + unat (5 :: size_t)}"
    by simp
  ultimately have b: "{18446744073709551610 ..< 18446744073709551616}
     \<noteq> {unat (18446744073709551610 :: size_t) ..< unat (18446744073709551610 :: size_t) + unat (5 :: size_t)}"
    by blast
  have c: "relative_total 0 1 edge_calls = unat (num_chunks edge_handler)"
    by (simp add: relative_total_def edge_calls_def names_def edge_handler_def transfer_handler_def)
  from a b c show ?thesis by blast
qed

text \<open>
  Claim C2 as stated fails on this run: the relative sizes sum to the chunk count for
  every pair, the last-phase descriptors into device 1 have the lengths 3, 3 and 0,
  and column 1 of the send counts sums to 5.
\<close>

theorem flow_counterexample:
  "map_option (lengths_into 0 1) (run edge_handler edge_calls) = Some [3, 3, 0] \<and>
   sum_list [3, 3, 0 :: nat] \<noteq> unat (edge_counts ! 0 ! 1) + unat (edge_counts ! 1 ! 1) \<and>
   relative_total 0 0 edge_calls = unat (num_chunks edge_handler) \<and>
   relative_total 0 1 edge_calls = unat (num_chunks edge_handler) \<and>
   relative_total 1 0 edge_calls = unat (num_chunks edge_handler) \<and>
   relative_total 1 1 edge_calls = unat (num_chunks edge_handler)"
proof -
  have a: "map_option (lengths_into 0 1) (run edge_handler edge_calls) = Some [3, 3, 0]"
    unfolding edge_run by (simp add: lengths_into_def)
  have b: "sum_list [3, 3, 0 :: nat] \<noteq> unat (edge_counts ! 0 ! 1) + unat (edge_counts ! 1 ! 1)"
    by (simp add: edge_counts_def)
  have c: "relative_total 0 0 edge_calls = unat (num_chunks edge_handler)"
    "relative_total 0 1 edge_calls = unat (num_chunks edge_handler)"
    "relative_total 1 0 edge_calls = unat (num_chunks edge_handler)"
    "relative_total 1 1 edge_calls = unat (num_chunks edge_handler)"
    by (simp_all add: relative_total_def edge_calls_def names_def edge_handler_def transfer_handler_def)
  from a b c show ?thesis by blast
qed

text \<open>
  Claim C3 as stated fails at the second call for the pair \<open>(0, 1)\<close>: the cursor stands
  at \<open>2^64 - 3\<close>, the limit is \<open>2^64 - 1\<close> and the nominal length 3 overshoots the
  remaining capacity 2; the call returns true, the emitted length is 3, and the cursor
  wraps around to 0.
\<close>

theorem clamp_counterexample:
  "then_resolve (run edge_handler (take 2 edge_calls)) [0, 1] 1
     = Some (18446744073709551613, 3, 3) \<and>
   map_option fst (then_call (run edge_handler (take 2 edge_calls)) [0, 1] 1) = Some True \<and>
   map_option (lengths_into 0 1 \<circ> snd) (then_call (run edge_handler (take 2 edge_calls)) [0, 1] 1)
     = Some [3, 3] \<and>
   map_option (source_cursor 0 1 \<circ> snd) (then_call (run edge_handler (take 2 edge_calls)) [0, 1] 1)
     = Some (Some 0) \<and>
   nominal 5 2 1 = 3 \<and>
   unat (18446744073709551610 :: size_t) + unat (5 :: size_t)
     < unat (18446744073709551613 :: size_t) + nominal 5 2 1 \<and>
   unat (3 :: size_t)
     \<noteq> unat (18446744073709551610 :: size_t) + unat (5 :: size_t) - unat (18446744073709551613 :: size_t)"
proof -
  have t: "take 2 edge_calls = [\<lparr>seq = [0, 0], seq_size = 2\<rparr>, \<lparr>seq = [0, 1], seq_size = 1\<rparr>]"
    by (simp add: edge_calls_def)
  have a: "then_resolve (run edge_handler (take 2 edge_calls)) [0, 1] 1
     = Some (18446744073709551613, 3, 3)"
    unfolding t edge_prefix by (simp add: then_resolve_def resolve_def at2_def edge_SDIV)
  have b: "map_option fst (then_call (run edge_handler (take 2 edge_calls)) [0, 1] 1) = Some True"
    "map_option (lengths_into 0 1 \<circ> snd) (then_call (run edge_handler (take 2 edge_calls)) [0, 1] 1)
     = Some [3, 3]"
    "map_option (source_cursor 0 1 \<circ> snd) (then_call (run edge_handler (take 2 edge_calls)) [0, 1] 1)
     = Some (Some 0)"
    unfolding t edge_prefix
    by (simp_all add: then_call_def add_transfer_def resolve_def emit_def emplace_back_def at2_def
          set2_def check_def edge_SDIV lengths_into_def source_cursor_def)
  have c: "nominal 5 2 1 = 3" by (simp add: nominal_def)
  have d: "unat (18446744073709551610 :: size_t) + unat (5 :: size_t)
     < unat (18446744073709551613 :: size_t) + nominal 5 2 1" by (simp add: c)
  have e: "unat (3 :: size_t)
     \<noteq> unat (18446744073709551610 :: size_t) + unat (5 :: size_t) - unat (18446744073709551613 :: size_t)"
    by simp
  from a b c d e show ?thesis by blast
qed

end
